theory Spec2Isabelle
  imports Main "HOL-Library.Char_ord"
begin

section \<open>Terminal control sequence handling (build\_safari/utils/terminal.py)\<close>

text \<open>
  A Python \<open>str\<close> is modelled as a \<open>string\<close>: one \<open>char\<close> per code point, for
  the code points below 256; strings with other code points lie outside the model.
  Exceptions are values of \<open>py_error\<close>; a function that can raise returns
  \<open>py_error + 'a\<close>, with \<open>Inl\<close> for the exception. \<open>"".join(xs)\<close> is
  \<open>concat xs\<close>.
\<close>

subsection \<open>Python built-ins used by the module\<close>

datatype py_error = ValueError | IndexError

definition ESC :: char where "ESC = CHR 0x1B"
definition BEL :: char where "BEL = CHR 0x07"
definition CR :: char where "CR = CHR 0x0D"
definition LF :: char where "LF = CHR 0x0A"
definition BS :: char where "BS = CHR 0x08"
definition BSL :: char where "BSL = CHR 0x5C"

text \<open>The result of a computation that may have raised, mapped where it returned.\<close>

fun map_result :: "('a \<Rightarrow> 'b) \<Rightarrow> py_error + 'a \<Rightarrow> py_error + 'b" where
  "map_result f (Inl e) = Inl e"
| "map_result f (Inr v) = Inr (f v)"

text \<open>\<open>xs[i]\<close> for a non-negative index: IndexError out of range.\<close>

definition py_index :: "'a list \<Rightarrow> nat \<Rightarrow> py_error + 'a" where
  "py_index xs i = (if i < length xs then Inr (xs ! i) else Inl IndexError)"

text \<open>\<open>s[a:b]\<close> and \<open>s[a:]\<close> for non-negative bounds (slices never raise).\<close>

definition slice :: "'a list \<Rightarrow> nat \<Rightarrow> nat \<Rightarrow> 'a list" where
  "slice s a b = take (b - a) (drop a s)"

definition slice_from :: "'a list \<Rightarrow> nat \<Rightarrow> 'a list" where
  "slice_from s a = drop a s"

text \<open>\<open>s.split(sep)\<close> for a one-character separator: always at least one field.\<close>

fun split_str :: "char \<Rightarrow> string \<Rightarrow> string list" where
  "split_str sep [] = [[]]"
| "split_str sep (c # cs) =
     (if c = sep then [] # split_str sep cs
      else (case split_str sep cs of
              [] \<Rightarrow> [[c]]
            | w # ws \<Rightarrow> (c # w) # ws))"

text \<open>\<open>s.replace(old, new)\<close> for a one-character \<open>old\<close>.\<close>

fun str_replace :: "char \<Rightarrow> string \<Rightarrow> string \<Rightarrow> string" where
  "str_replace old new [] = []"
| "str_replace old new (c # cs) =
     (if c = old then new @ str_replace old new cs else c # str_replace old new cs)"

text \<open>\<open>sep.join(xs)\<close>.\<close>

fun str_join :: "string \<Rightarrow> string list \<Rightarrow> string" where
  "str_join sep [] = []"
| "str_join sep [x] = x"
| "str_join sep (x # y # ys) = x @ sep @ str_join sep (y # ys)"

text \<open>
  \<open>int(s)\<close> in base 10, as CPython parses it: optional white space, an optional sign,
  decimal digits in which single underscores may separate digits, optional white space.
  Anything else is a ValueError, and so is a literal of more than 4300 digits (the default
  \<open>int_max_str_digits\<close> of CPython 3.11). Below code point 256 the decimal digits are
  \<open>0\<close> to \<open>9\<close> and the white space \<open>int\<close> skips is 0x09 to 0x0D, 0x20,
  0x85 and 0xA0.
\<close>

definition is_digit :: "char \<Rightarrow> bool" where
  "is_digit c = (CHR ''0'' \<le> c \<and> c \<le> CHR ''9'')"

definition is_int_space :: "char \<Rightarrow> bool" where
  "is_int_space c =
     ((CHR 0x09 \<le> c \<and> c \<le> CHR 0x0D) \<or> c = CHR 0x20 \<or> c = CHR 0x85 \<or> c = CHR 0xA0)"

definition digit_val :: "char \<Rightarrow> int" where
  "digit_val c = int (of_char c) - 48"

fun underscores_ok :: "string \<Rightarrow> bool" where
  "underscores_ok [] = False"
| "underscores_ok [c] = (c \<noteq> CHR ''_'')"
| "underscores_ok (c # d # cs) =
     (\<not> (c = CHR ''_'' \<and> d = CHR ''_'') \<and> underscores_ok (d # cs))"

definition max_str_digits :: nat where
  "max_str_digits = 4300"

definition py_int :: "string \<Rightarrow> py_error + int" where
  "py_int s =
     (let t = dropWhile is_int_space s;
          neg = (case t of [] \<Rightarrow> False | c # _ \<Rightarrow> c = CHR ''-'');
          u = (case t of [] \<Rightarrow> [] | c # r \<Rightarrow> if c = CHR ''+'' \<or> c = CHR ''-'' then r else t);
          body = takeWhile (\<lambda>c. is_digit c \<or> c = CHR ''_'') u;
          trail = dropWhile (\<lambda>c. is_digit c \<or> c = CHR ''_'') u;
          ds = filter is_digit body
      in if body \<noteq> [] \<and> hd body \<noteq> CHR ''_'' \<and> underscores_ok body
            \<and> dropWhile is_int_space trail = [] \<and> length ds \<le> max_str_digits
         then Inr ((if neg then -1 else 1) * foldl (\<lambda>acc c. acc * 10 + digit_val c) 0 ds)
         else Inl ValueError)"

text \<open>
  \<open>str(n)\<close>, the decimal text an f-string gives an int. An int that \<open>int\<close> returned
  has at most 4300 digits, so the same limit never stops its conversion back.
\<close>

fun nat_digits :: "nat \<Rightarrow> string" where
  "nat_digits n =
     (if n < 10 then [char_of (48 + n)]
      else nat_digits (n div 10) @ [char_of (48 + n mod 10)])"

definition py_str :: "int \<Rightarrow> string" where
  "py_str n = (if n < 0 then CHR ''-'' # nat_digits (nat (- n)) else nat_digits (nat n))"

definition startswith :: "string \<Rightarrow> string \<Rightarrow> bool" where
  "startswith s p = (take (length p) s = p)"

subsection \<open>The SGR code table\<close>

definition ANSI_TO_RICH :: "(string \<times> string) list" where
  "ANSI_TO_RICH =
    [(''0'', ''/''),
     (''1'', ''bold''), (''2'', ''dim''), (''3'', ''italic''), (''4'', ''underline''),
     (''5'', ''blink''), (''7'', ''reverse''), (''8'', ''hidden''), (''9'', ''strike''),
     (''21'', ''/bold''), (''22'', ''/dim''), (''23'', ''/italic''), (''24'', ''/underline''),
     (''25'', ''/blink''), (''27'', ''/reverse''), (''28'', ''/hidden''), (''29'', ''/strike''),
     (''30'', ''black''), (''31'', ''red''), (''32'', ''green''), (''33'', ''yellow''),
     (''34'', ''blue''), (''35'', ''magenta''), (''36'', ''cyan''), (''37'', ''white''),
     (''39'', ''default''),
     (''40'', ''on black''), (''41'', ''on red''), (''42'', ''on green''),
     (''43'', ''on yellow''), (''44'', ''on blue''), (''45'', ''on magenta''),
     (''46'', ''on cyan''), (''47'', ''on white''), (''49'', ''on default''),
     (''90'', ''bright_black''), (''91'', ''bright_red''), (''92'', ''bright_green''),
     (''93'', ''bright_yellow''), (''94'', ''bright_blue''), (''95'', ''bright_magenta''),
     (''96'', ''bright_cyan''), (''97'', ''bright_white''),
     (''100'', ''on bright_black''), (''101'', ''on bright_red''),
     (''102'', ''on bright_green''), (''103'', ''on bright_yellow''),
     (''104'', ''on bright_blue''), (''105'', ''on bright_magenta''),
     (''106'', ''on bright_cyan''), (''107'', ''on bright_white'')]"

subsection \<open>\<open>_parse_sgr\<close>\<close>

text \<open>
  One pass of the \<open>while\<close> body returns the next index and the extended tag list. Each of
  the four compound-colour blocks is a value \<open>py_error + (nat \<times> string list) option\<close>:
  \<open>Inr (Some st)\<close> when it reached its \<open>continue\<close>, \<open>Inr None\<close> when its guard was
  false or its \<open>except ValueError: pass\<close> ran, \<open>Inl e\<close> for an exception it does not catch.
\<close>

text \<open>\<open>param == lead and i + k < len(parts) and parts[i + 1] == mode\<close>, short-circuit.\<close>

definition directive_guard ::
  "string list \<Rightarrow> nat \<Rightarrow> string \<Rightarrow> string \<Rightarrow> nat \<Rightarrow> string \<Rightarrow> py_error + bool" where
  "directive_guard parts i param lead k mode =
     (if param = lead \<and> i + k < length parts
      then (case py_index parts (i + 1) of Inl e \<Rightarrow> Inl e | Inr p \<Rightarrow> Inr (p = mode))
      else Inr False)"

text \<open>The 256-colour block: \<open>lead;5;N\<close>.\<close>

definition color256_block ::
  "string list \<Rightarrow> nat \<Rightarrow> string list \<Rightarrow> string \<Rightarrow> string \<Rightarrow> string
     \<Rightarrow> py_error + (nat \<times> string list) option" where
  "color256_block parts i tags param lead opening =
     (case directive_guard parts i param lead 2 ''5'' of
        Inl e \<Rightarrow> Inl e
      | Inr False \<Rightarrow> Inr None
      | Inr True \<Rightarrow>
          (case py_index parts (i + 2) of
             Inl e \<Rightarrow> Inl e
           | Inr s \<Rightarrow>
               (case py_int s of
                  Inl e \<Rightarrow> (if e = ValueError then Inr None else Inl e)
                | Inr color_num \<Rightarrow>
                    Inr (Some (i + 3, tags @ [opening @ py_str color_num @ '')]''])))))"

text \<open>\<open>r, g, b = int(parts[i + 2]), int(parts[i + 3]), int(parts[i + 4])\<close>, left to right.\<close>

definition int_at :: "string list \<Rightarrow> nat \<Rightarrow> py_error + int" where
  "int_at parts j = (case py_index parts j of Inl e \<Rightarrow> Inl e | Inr s \<Rightarrow> py_int s)"

definition rgb_triple :: "string list \<Rightarrow> nat \<Rightarrow> py_error + (int \<times> int \<times> int)" where
  "rgb_triple parts i =
     (case int_at parts (i + 2) of
        Inl e \<Rightarrow> Inl e
      | Inr r \<Rightarrow>
          (case int_at parts (i + 3) of
             Inl e \<Rightarrow> Inl e
           | Inr g \<Rightarrow>
               (case int_at parts (i + 4) of
                  Inl e \<Rightarrow> Inl e
                | Inr b \<Rightarrow> Inr (r, g, b))))"

text \<open>The true-colour block: \<open>lead;2;R;G;B\<close>.\<close>

definition rgb_block ::
  "string list \<Rightarrow> nat \<Rightarrow> string list \<Rightarrow> string \<Rightarrow> string \<Rightarrow> string
     \<Rightarrow> py_error + (nat \<times> string list) option" where
  "rgb_block parts i tags param lead opening =
     (case directive_guard parts i param lead 4 ''2'' of
        Inl e \<Rightarrow> Inl e
      | Inr False \<Rightarrow> Inr None
      | Inr True \<Rightarrow>
          (case rgb_triple parts i of
             Inl e \<Rightarrow> (if e = ValueError then Inr None else Inl e)
           | Inr (r, g, b) \<Rightarrow>
               Inr (Some (i + 5,
                 tags @ [opening @ py_str r @ '','' @ py_str g @ '','' @ py_str b @ '')]'']))))"

text \<open>The basic codes: \<open>if param in ANSI_TO_RICH: ...\<close>, then \<open>i += 1\<close>.\<close>

definition basic_block :: "nat \<Rightarrow> string list \<Rightarrow> string \<Rightarrow> nat \<times> string list" where
  "basic_block i tags param =
     (case map_of ANSI_TO_RICH param of
        None \<Rightarrow> (i + 1, tags)
      | Some tag \<Rightarrow>
          (if tag = ''/'' then (i + 1, tags @ [''[/]''])
           else if startswith tag ''/'' then (i + 1, tags @ [''['' @ tag @ '']''])
           else (i + 1, tags @ [''['' @ tag @ '']''])))"

text \<open>Sequencing: a block that did not \<open>continue\<close> falls through to the code after it.\<close>

definition or_else :: "(py_error + 'a option) \<Rightarrow> (py_error + 'a) \<Rightarrow> py_error + 'a" where
  "or_else block rest =
     (case block of Inl e \<Rightarrow> Inl e | Inr (Some st) \<Rightarrow> Inr st | Inr None \<Rightarrow> rest)"

definition sgr_body :: "string list \<Rightarrow> nat \<Rightarrow> string list \<Rightarrow> py_error + (nat \<times> string list)" where
  "sgr_body parts i tags =
     (case py_index parts i of
        Inl e \<Rightarrow> Inl e
      | Inr param \<Rightarrow>
          or_else (color256_block parts i tags param ''38'' ''[color('')
         (or_else (color256_block parts i tags param ''48'' ''[on color('')
         (or_else (rgb_block parts i tags param ''38'' ''[rgb('')
         (or_else (rgb_block parts i tags param ''48'' ''[on rgb('')
         (Inr (basic_block i tags param))))))"

lemma color256_block_Some:
  "color256_block parts i tags param lead opening = Inr (Some (j, tags')) \<Longrightarrow> j = i + 3"
  by (simp add: color256_block_def split: sum.splits bool.splits if_splits)

lemma rgb_block_Some:
  "rgb_block parts i tags param lead opening = Inr (Some (j, tags')) \<Longrightarrow> j = i + 5"
  by (simp add: rgb_block_def split: sum.splits bool.splits if_splits prod.splits)

lemma basic_block_fst: "fst (basic_block i tags param) = i + 1"
  by (simp add: basic_block_def split: option.splits)

lemma or_else_Inr:
  "or_else block rest = Inr st \<longleftrightarrow> block = Inr (Some st) \<or> (block = Inr None \<and> rest = Inr st)"
  by (simp add: or_else_def split: sum.splits option.splits)

lemma sgr_body_advances: "sgr_body parts i tags = Inr (j, tags') \<Longrightarrow> i < j"
  unfolding sgr_body_def
  by (auto simp: or_else_Inr split: sum.splits dest!: color256_block_Some rgb_block_Some)
     (metis basic_block_fst fst_conv less_add_one)

text \<open>\<open>while i < len(parts): ...\<close>\<close>

function sgr_loop :: "string list \<Rightarrow> nat \<Rightarrow> string list \<Rightarrow> py_error + string list" where
  "sgr_loop parts i tags =
     (if i < length parts
      then (case sgr_body parts i tags of
              Inl e \<Rightarrow> Inl e
            | Inr (j, tags') \<Rightarrow> sgr_loop parts j tags')
      else Inr tags)"
  by pat_completeness auto
termination
  by (relation "measure (\<lambda>(parts, i, tags). length parts - i)")
     (auto dest: sgr_body_advances)

declare sgr_loop.simps [simp del]

text \<open>
  The first \<open>k\<close> passes of the same loop (fewer when it has ended before): the index and
  the tag list the scan then stands on.
\<close>

fun sgr_steps ::
  "nat \<Rightarrow> string list \<Rightarrow> nat \<Rightarrow> string list \<Rightarrow> py_error + (nat \<times> string list)" where
  "sgr_steps 0 parts i tags = Inr (i, tags)"
| "sgr_steps (Suc k) parts i tags =
     (if i < length parts
      then (case sgr_body parts i tags of
              Inl e \<Rightarrow> Inl e
            | Inr (j, tags') \<Rightarrow> sgr_steps k parts j tags')
      else Inr (i, tags))"

definition parse_sgr :: "string \<Rightarrow> py_error + string" where
  "parse_sgr params =
     (if params = [] \<or> params = ''0'' then Inr ''[/]''
      else (case sgr_loop (split_str (CHR '';'') params) 0 [] of
              Inl e \<Rightarrow> Inl e
            | Inr tags \<Rightarrow> Inr (concat tags)))"

subsection \<open>\<open>_escape_rich_markup\<close>\<close>

text \<open>\<open>text.replace("[", r"\[").replace("]", r"\]")\<close>: two passes, one after the other.\<close>

definition escape_rich_markup :: "string \<Rightarrow> string" where
  "escape_rich_markup text =
     str_replace (CHR '']'') [BSL, CHR '']''] (str_replace (CHR ''['') [BSL, CHR ''[''] text)"

subsection \<open>\<open>ANSI_ALL_PATTERN\<close> and \<open>ANSI_CSI_PATTERN\<close>\<close>

text \<open>
  The character classes of the two patterns. No flag is set, so the ranges are ranges of
  code points.
\<close>

definition is_csi_param :: "char \<Rightarrow> bool" where
  "is_csi_param c = (is_digit c \<or> c = CHR '';'' \<or> c = CHR '':'')"

definition is_letter :: "char \<Rightarrow> bool" where
  "is_letter c = ((CHR ''A'' \<le> c \<and> c \<le> CHR ''Z'') \<or> (CHR ''a'' \<le> c \<and> c \<le> CHR ''z''))"

definition is_osc_char :: "char \<Rightarrow> bool" where
  "is_osc_char c = (c \<noteq> BEL \<and> c \<noteq> ESC)"

definition is_dcs_intro :: "char \<Rightarrow> bool" where
  "is_dcs_intro c = (c = CHR ''P'' \<or> c = CHR ''X'' \<or> c = CHR ''^'' \<or> c = CHR ''_'')"

definition is_dcs_char :: "char \<Rightarrow> bool" where
  "is_dcs_char c = (c \<noteq> ESC)"

definition is_fe :: "char \<Rightarrow> bool" where
  "is_fe c = ((CHR ''@'' \<le> c \<and> c \<le> CHR ''Z'') \<or> (BSL \<le> c \<and> c \<le> CHR ''_''))"

text \<open>
  Each alternative of \<open>ANSI_ALL_PATTERN\<close>, matched at the start of the text that follows
  the ESC: the number of characters it consumes, or \<open>None\<close>. A starred class is greedy,
  and a shorter run never rescues a match here: what follows the run in the pattern is
  either optional or a class disjoint from the starred one.
\<close>

text \<open>\<open>\[[0-9;:]*[A-Za-z]\<close>\<close>

definition csi_alt :: "string \<Rightarrow> nat option" where
  "csi_alt s =
     (case s of
        [] \<Rightarrow> None
      | c # r \<Rightarrow>
          if c = CHR ''[''
          then (case dropWhile is_csi_param r of
                  [] \<Rightarrow> None
                | l # _ \<Rightarrow>
                    if is_letter l then Some (length (takeWhile is_csi_param r) + 2) else None)
          else None)"

text \<open>\<open>(?:\x1B\\)?\<close>\<close>

definition st_opt :: "string \<Rightarrow> nat" where
  "st_opt s =
     (case s of
        [] \<Rightarrow> 0
      | e # r \<Rightarrow> (case r of [] \<Rightarrow> 0 | b # _ \<Rightarrow> if e = ESC \<and> b = BSL then 2 else 0))"

text \<open>\<open>(?:\x07|\x1B\\)?\<close>\<close>

definition bel_or_st_opt :: "string \<Rightarrow> nat" where
  "bel_or_st_opt s = (case s of [] \<Rightarrow> 0 | c # _ \<Rightarrow> if c = BEL then 1 else st_opt s)"

text \<open>\<open>\][^\x07\x1B]*(?:\x07|\x1B\\)?\<close>\<close>

definition osc_alt :: "string \<Rightarrow> nat option" where
  "osc_alt s =
     (case s of
        [] \<Rightarrow> None
      | c # r \<Rightarrow>
          if c = CHR '']''
          then Some (1 + length (takeWhile is_osc_char r) + bel_or_st_opt (dropWhile is_osc_char r))
          else None)"

text \<open>\<open>[PX^_][^\x1B]*(?:\x1B\\)?\<close>\<close>

definition dcs_alt :: "string \<Rightarrow> nat option" where
  "dcs_alt s =
     (case s of
        [] \<Rightarrow> None
      | c # r \<Rightarrow>
          if is_dcs_intro c
          then Some (1 + length (takeWhile is_dcs_char r) + st_opt (dropWhile is_dcs_char r))
          else None)"

text \<open>\<open>[@-Z\\-_]\<close>\<close>

definition fe_alt :: "string \<Rightarrow> nat option" where
  "fe_alt s = (case s of [] \<Rightarrow> None | c # _ \<Rightarrow> if is_fe c then Some 1 else None)"

text \<open>
  \<open>ANSI_ALL_PATTERN.match\<close> at the start of \<open>s\<close>: the length of the match. After the
  ESC the alternatives are tried in the order written, and the first that matches wins.
\<close>

definition ansi_all_match :: "string \<Rightarrow> nat option" where
  "ansi_all_match s =
     (case s of
        [] \<Rightarrow> None
      | e # r \<Rightarrow>
          if e = ESC
          then (case csi_alt r of
                  Some n \<Rightarrow> Some (1 + n)
                | None \<Rightarrow>
                    (case osc_alt r of
                       Some n \<Rightarrow> Some (1 + n)
                     | None \<Rightarrow>
                         (case dcs_alt r of
                            Some n \<Rightarrow> Some (1 + n)
                          | None \<Rightarrow>
                              (case fe_alt r of
                                 Some n \<Rightarrow> Some (1 + n)
                               | None \<Rightarrow> None))))
          else None)"

lemma ansi_all_match_bounds: "ansi_all_match s = Some n \<Longrightarrow> 0 < n"
  by (auto simp: ansi_all_match_def split: list.splits if_splits option.splits)

text \<open>
  \<open>ANSI_ALL_PATTERN.finditer(text)\<close>: the spans \<open>(start, end)\<close> of the matches, left to
  right; after a match the search goes on at its end, and no match is empty.
\<close>

function finditer_from :: "string \<Rightarrow> nat \<Rightarrow> (nat \<times> nat) list" where
  "finditer_from text pos =
     (if pos < length text
      then (case ansi_all_match (drop pos text) of
              Some n \<Rightarrow> (pos, pos + n) # finditer_from text (pos + n)
            | None \<Rightarrow> finditer_from text (pos + 1))
      else [])"
  by pat_completeness auto
termination
  by (relation "measure (\<lambda>(text, pos). length text - pos)")
     (auto dest: ansi_all_match_bounds)

declare finditer_from.simps [simp del]

definition finditer :: "string \<Rightarrow> (nat \<times> nat) list" where
  "finditer text = finditer_from text 0"

text \<open>
  \<open>ANSI_CSI_PATTERN.fullmatch(seq)\<close>: the two groups (parameters, command) when the whole
  of \<open>seq\<close> is ESC, \<open>[\<close>, parameter characters and one letter.
\<close>

definition csi_fullmatch :: "string \<Rightarrow> (string \<times> char) option" where
  "csi_fullmatch seq =
     (case seq of
        [] \<Rightarrow> None
      | e # s \<Rightarrow>
          (case s of
             [] \<Rightarrow> None
           | b # r \<Rightarrow>
               if e = ESC \<and> b = CHR ''[''
               then (case dropWhile is_csi_param r of
                       [] \<Rightarrow> None
                     | l # after \<Rightarrow>
                         if is_letter l \<and> after = []
                         then Some (takeWhile is_csi_param r, l) else None)
               else None))"

subsection \<open>\<open>ansi_to_rich\<close>\<close>

text \<open>The \<open>for\<close> loop over the matches, with \<open>last_end\<close> and \<open>result\<close> as its state.\<close>

fun ansi_loop ::
  "string \<Rightarrow> (nat \<times> nat) list \<Rightarrow> nat \<Rightarrow> string list \<Rightarrow> py_error + (nat \<times> string list)" where
  "ansi_loop text [] last_end result = Inr (last_end, result)"
| "ansi_loop text ((m_start, m_end) # ms) last_end result =
     (let result1 = result @ [escape_rich_markup (slice text last_end m_start)];
          seq = slice text m_start m_end
      in case csi_fullmatch seq of
           None \<Rightarrow> ansi_loop text ms m_end result1
         | Some (params, cmd) \<Rightarrow>
             if cmd = CHR ''m''
             then (case parse_sgr params of
                     Inl e \<Rightarrow> Inl e
                   | Inr markup \<Rightarrow>
                       ansi_loop text ms m_end
                         (if markup \<noteq> [] then result1 @ [markup] else result1))
             else ansi_loop text ms m_end result1)"

definition ansi_to_rich :: "string \<Rightarrow> py_error + string" where
  "ansi_to_rich text =
     (case ansi_loop text (finditer text) 0 [] of
        Inl e \<Rightarrow> Inl e
      | Inr (last_end, result) \<Rightarrow>
          Inr (concat (result @ [escape_rich_markup (slice_from text last_end)])))"

subsection \<open>\<open>OutputProcessor\<close>\<close>

record OutputProcessor =
  current_line :: string

text \<open>\<open>__init__\<close>\<close>

definition OutputProcessor_init :: OutputProcessor where
  "OutputProcessor_init = \<lparr>current_line = []\<rparr>"

text \<open>
  The \<open>while i < len(text)\<close> loop of \<open>process\<close>, with \<open>result_lines\<close> and
  \<open>self.current_line\<close> as its state. Every read \<open>text[i]\<close>, \<open>text[i + 1]\<close> stands
  under its own bounds test, as in the source.
\<close>

function process_loop :: "string \<Rightarrow> nat \<Rightarrow> string list \<Rightarrow> string \<Rightarrow> string list \<times> string" where
  "process_loop text i result_lines line =
     (if i < length text
      then (let char = text ! i
            in if char = CR
               then (if i + 1 < length text \<and> text ! (i + 1) = LF
                     then process_loop text (i + 2) (result_lines @ [line]) []
                     else process_loop text (i + 1) result_lines [])
               else if char = LF
               then process_loop text (i + 1) (result_lines @ [line]) []
               else if char = BS
               then process_loop text (i + 1) result_lines
                      (if line \<noteq> [] then butlast line else line)
               else process_loop text (i + 1) result_lines (line @ [char]))
      else (result_lines, line))"
  by pat_completeness auto
termination
  by (relation "measure (\<lambda>(text, i, result_lines, line). length text - i)") auto

declare process_loop.simps [simp del]

text \<open>\<open>[ansi_to_rich(line) for line in result_lines]\<close>\<close>

fun convert_lines :: "string list \<Rightarrow> py_error + string list" where
  "convert_lines [] = Inr []"
| "convert_lines (l # ls) =
     (case ansi_to_rich l of
        Inl e \<Rightarrow> Inl e
      | Inr c \<Rightarrow> (case convert_lines ls of Inl e \<Rightarrow> Inl e | Inr cs \<Rightarrow> Inr (c # cs)))"

text \<open>
  \<open>process\<close> returns its value (or the exception it raised) and the processor as the call
  left it: the buffer is assigned inside the loop, before any conversion.
\<close>

definition process :: "OutputProcessor \<Rightarrow> string \<Rightarrow> (py_error + string) \<times> OutputProcessor" where
  "process self text =
     (case process_loop text 0 [] (current_line self) of
        (result_lines, line) \<Rightarrow>
          (if result_lines \<noteq> []
           then (case convert_lines result_lines of
                   Inl e \<Rightarrow> Inl e
                 | Inr converted \<Rightarrow> Inr (str_join [LF] converted @ [LF]))
           else Inr [],
           self\<lparr>current_line := line\<rparr>))"

definition flush :: "OutputProcessor \<Rightarrow> (py_error + string) \<times> OutputProcessor" where
  "flush self =
     (if current_line self \<noteq> []
      then (case ansi_to_rich (current_line self) of
              Inl e \<Rightarrow> (Inl e, self)
            | Inr converted \<Rightarrow> (Inr (converted @ [LF]), self\<lparr>current_line := []\<rparr>))
      else (Inr [], self))"

definition reset :: "OutputProcessor \<Rightarrow> OutputProcessor" where
  "reset self = self\<lparr>current_line := []\<rparr>"

subsection \<open>Facts about the translator\<close>

lemma py_index_append: "py_index (pre @ xs) (length pre + k) = py_index xs k"
  by (simp add: py_index_def nth_append)

lemma directive_guard_append:
  "directive_guard (pre @ xs) (length pre + i) param lead k mode = directive_guard xs i param lead k mode"
  using py_index_append [of pre xs "i + 1"]
  by (simp add: directive_guard_def add.assoc)

lemma int_at_append: "int_at (pre @ xs) (length pre + k) = int_at xs k"
  by (simp add: int_at_def py_index_append)

lemma rgb_triple_append: "rgb_triple (pre @ xs) (length pre + i) = rgb_triple xs i"
  by (simp only: rgb_triple_def add.assoc int_at_append)

definition shift_state :: "nat \<Rightarrow> string list \<Rightarrow> nat \<times> string list \<Rightarrow> nat \<times> string list" where
  "shift_state n tags st = (n + fst st, tags @ snd st)"

lemma color256_block_shift:
  "color256_block (pre @ xs) (length pre + i) (tags @ t0) param lead opening =
     map_result (map_option (shift_state (length pre) tags)) (color256_block xs i t0 param lead opening)"
  using py_index_append [of pre xs "i + 2"]
  by (simp add: color256_block_def directive_guard_append shift_state_def add.assoc
           split: sum.splits bool.splits)

lemma rgb_block_shift:
  "rgb_block (pre @ xs) (length pre + i) (tags @ t0) param lead opening =
     map_result (map_option (shift_state (length pre) tags)) (rgb_block xs i t0 param lead opening)"
  by (simp add: rgb_block_def directive_guard_append rgb_triple_append shift_state_def add.assoc
           split: sum.splits bool.splits prod.splits)

lemma basic_block_shift:
  "basic_block (n + i) (tags @ t0) param = shift_state n tags (basic_block i t0 param)"
  by (simp add: basic_block_def shift_state_def split: option.splits)

lemma or_else_shift:
  "or_else (map_result (map_option f) block) (map_result f rest) = map_result f (or_else block rest)"
  by (simp add: or_else_def split: sum.splits option.splits)

lemma sgr_body_shift:
  "sgr_body (pre @ xs) (length pre + i) (tags @ t0) =
     map_result (shift_state (length pre) tags) (sgr_body xs i t0)"
proof (cases "py_index xs i")
  case (Inl e)
  then show ?thesis by (simp add: sgr_body_def py_index_append)
next
  case (Inr param)
  have "Inr (basic_block (length pre + i) (tags @ t0) param) =
        map_result (shift_state (length pre) tags) (Inr (basic_block i t0 param) :: py_error + _)"
    by (simp add: basic_block_shift)
  then show ?thesis
    using Inr
    by (simp only: sgr_body_def py_index_append sum.case color256_block_shift rgb_block_shift
          or_else_shift)
qed

lemma sgr_loop_unfold:
  "i < length parts \<Longrightarrow>
   sgr_loop parts i tags =
     (case sgr_body parts i tags of Inl e \<Rightarrow> Inl e | Inr (j, tags') \<Rightarrow> sgr_loop parts j tags')"
  by (subst sgr_loop.simps) simp

lemma sgr_loop_done: "\<not> i < length parts \<Longrightarrow> sgr_loop parts i tags = Inr tags"
  by (subst sgr_loop.simps) simp

lemma sgr_loop_shift:
  "sgr_loop (pre @ xs) (length pre + i) (tags @ t0) = map_result ((@) tags) (sgr_loop xs i t0)"
proof (induction xs i t0 rule: sgr_loop.induct)
  case (1 parts i t0)
  show ?case
  proof (cases "i < length parts")
    case False
    then show ?thesis by (simp add: sgr_loop_done)
  next
    case True
    then have L: "length pre + i < length (pre @ parts)" by simp
    show ?thesis
    proof (cases "sgr_body parts i t0")
      case (Inl e)
      then show ?thesis
        using sgr_body_shift [of pre parts i tags t0]
        by (simp add: sgr_loop_unfold [OF True] sgr_loop_unfold [OF L])
    next
      case (Inr st)
      obtain j t1 where st: "st = (j, t1)" by (cases st)
      have "sgr_loop (pre @ parts) (length pre + j) (tags @ t1) = map_result ((@) tags) (sgr_loop parts j t1)"
        using "1.IH" [OF True Inr [unfolded st] refl] .
      then show ?thesis
        using Inr st sgr_body_shift [of pre parts i tags t0]
        by (simp add: sgr_loop_unfold [OF True] sgr_loop_unfold [OF L] shift_state_def)
    qed
  qed
qed

lemma py_int_error: "py_int s = Inl e \<Longrightarrow> e = ValueError"
  by (simp add: py_int_def Let_def split: if_splits)

lemma directive_guard_cases:
  "0 < k \<Longrightarrow>
   directive_guard parts i param lead k mode = Inr False \<or>
   (directive_guard parts i param lead k mode = Inr True \<and> i + k < length parts)"
  by (simp add: directive_guard_def py_index_def)

lemma color256_block_returns: "\<exists>r. color256_block parts i tags param lead opening = Inr r"
proof -
  consider "directive_guard parts i param lead 2 ''5'' = Inr False"
    | "directive_guard parts i param lead 2 ''5'' = Inr True" "i + 2 < length parts"
    using directive_guard_cases [of 2 parts i param lead "''5''"] by auto
  then show ?thesis
  proof cases
    case 1
    then show ?thesis by (simp add: color256_block_def)
  next
    case 2
    then show ?thesis
      by (cases "py_int (parts ! (i + 2))")
         (auto simp: color256_block_def py_index_def dest: py_int_error)
  qed
qed

lemma int_at_error: "j < length parts \<Longrightarrow> int_at parts j = Inl e \<Longrightarrow> e = ValueError"
  by (simp add: int_at_def py_index_def py_int_error)

lemma rgb_triple_error:
  assumes "i + 4 < length parts" and "rgb_triple parts i = Inl e"
  shows "e = ValueError"
proof -
  have "i + 2 < length parts" "i + 3 < length parts" using assms(1) by simp_all
  then show ?thesis
    using assms int_at_error [of "i + 2" parts e] int_at_error [of "i + 3" parts e]
      int_at_error [of "i + 4" parts e]
    by (simp add: rgb_triple_def split: sum.splits)
qed

lemma rgb_block_returns: "\<exists>r. rgb_block parts i tags param lead opening = Inr r"
proof -
  consider "directive_guard parts i param lead 4 ''2'' = Inr False"
    | "directive_guard parts i param lead 4 ''2'' = Inr True" "i + 4 < length parts"
    using directive_guard_cases [of 4 parts i param lead "''2''"] by auto
  then show ?thesis
  proof cases
    case 1
    then show ?thesis by (simp add: rgb_block_def)
  next
    case 2
    show ?thesis
    proof (cases "rgb_triple parts i")
      case (Inl e)
      then show ?thesis using 2 rgb_triple_error [OF 2(2) Inl] by (simp add: rgb_block_def)
    next
      case (Inr t)
      then show ?thesis using 2 by (simp add: rgb_block_def split: prod.splits)
    qed
  qed
qed

lemma or_else_returns:
  "\<exists>r. block = Inr r \<Longrightarrow> \<exists>st. rest = Inr st \<Longrightarrow> \<exists>st. or_else block rest = Inr st"
  by (auto simp: or_else_def split: option.splits)

lemma sgr_body_returns:
  assumes "i < length parts"
  shows "\<exists>st. sgr_body parts i tags = Inr st"
proof -
  define param where "param = parts ! i"
  have b0: "\<exists>st. (Inr (basic_block i tags param) :: py_error + nat \<times> string list) = Inr st"
    by simp
  note b1 = or_else_returns [OF rgb_block_returns b0]
  note b2 = or_else_returns [OF rgb_block_returns b1]
  note b3 = or_else_returns [OF color256_block_returns b2]
  note b4 = or_else_returns [OF color256_block_returns b3]
  show ?thesis
    using assms b4 [of parts i tags param "''38''" "''[color(''" parts i tags param "''48''"
        "''[on color(''" parts i tags param "''38''" "''[rgb(''" parts i tags param "''48''"
        "''[on rgb(''"]
    by (simp only: sgr_body_def py_index_def param_def if_True sum.case)
qed

lemma sgr_loop_returns: "\<exists>ts. sgr_loop parts i tags = Inr ts"
proof (induction parts i tags rule: sgr_loop.induct)
  case (1 parts i tags)
  show ?case
  proof (cases "i < length parts")
    case False
    then show ?thesis by (simp add: sgr_loop_done)
  next
    case True
    then obtain j t1 where b: "sgr_body parts i tags = Inr (j, t1)"
      using sgr_body_returns [of i parts tags] by auto
    then show ?thesis
      using "1.IH" [OF True b refl] by (simp add: sgr_loop_unfold [OF True])
  qed
qed

lemma color256_block_None:
  "param \<noteq> lead \<or> \<not> i + 2 < length parts \<or> parts ! (i + 1) \<noteq> ''5''
     \<or> py_int (parts ! (i + 2)) = Inl ValueError \<Longrightarrow>
   color256_block parts i tags param lead opening = Inr None"
  by (auto simp: color256_block_def directive_guard_def py_index_def split: bool.splits)

lemma color256_block_Some_eq:
  "param = lead \<Longrightarrow> i + 2 < length parts \<Longrightarrow> parts ! (i + 1) = ''5'' \<Longrightarrow>
   py_int (parts ! (i + 2)) = Inr n \<Longrightarrow>
   color256_block parts i tags param lead opening =
     Inr (Some (i + 3, tags @ [opening @ py_str n @ '')]'']))"
  by (simp add: color256_block_def directive_guard_def py_index_def)

lemma rgb_triple_Inr:
  "i + 4 < length parts \<Longrightarrow> py_int (parts ! (i + 2)) = Inr r \<Longrightarrow>
   py_int (parts ! (i + 3)) = Inr g \<Longrightarrow> py_int (parts ! (i + 4)) = Inr b \<Longrightarrow>
   rgb_triple parts i = Inr (r, g, b)"
  by (simp add: rgb_triple_def int_at_def py_index_def)

lemma rgb_triple_Inl:
  assumes "i + 4 < length parts"
    and "py_int (parts ! (i + 2)) = Inl ValueError \<or> py_int (parts ! (i + 3)) = Inl ValueError
          \<or> py_int (parts ! (i + 4)) = Inl ValueError"
  shows "rgb_triple parts i = Inl ValueError"
proof -
  have len: "i + 2 < length parts" "i + 3 < length parts" using assms(1) by simp_all
  have a: "int_at parts (i + 2) = py_int (parts ! (i + 2))"
    and b: "int_at parts (i + 3) = py_int (parts ! (i + 3))"
    and c: "int_at parts (i + 4) = py_int (parts ! (i + 4))"
    using len assms(1) by (simp_all add: int_at_def py_index_def)
  show ?thesis
    using assms(2) unfolding rgb_triple_def a b c
    by (auto split: sum.splits dest: py_int_error)
qed

lemma rgb_block_None:
  assumes "param \<noteq> lead \<or> \<not> i + 4 < length parts \<or> parts ! (i + 1) \<noteq> ''2''
     \<or> py_int (parts ! (i + 2)) = Inl ValueError \<or> py_int (parts ! (i + 3)) = Inl ValueError
     \<or> py_int (parts ! (i + 4)) = Inl ValueError"
  shows "rgb_block parts i tags param lead opening = Inr None"
proof (cases "param = lead \<and> i + 4 < length parts \<and> parts ! (i + 1) = ''2''")
  case False
  then show ?thesis
    by (auto simp: rgb_block_def directive_guard_def py_index_def split: bool.splits)
next
  case True
  then have "rgb_triple parts i = Inl ValueError"
    using assms rgb_triple_Inl [of i parts] by blast
  then show ?thesis using True by (simp add: rgb_block_def directive_guard_def py_index_def)
qed

lemma rgb_block_Some_eq:
  "param = lead \<Longrightarrow> i + 4 < length parts \<Longrightarrow> parts ! (i + 1) = ''2'' \<Longrightarrow>
   py_int (parts ! (i + 2)) = Inr r \<Longrightarrow> py_int (parts ! (i + 3)) = Inr g \<Longrightarrow>
   py_int (parts ! (i + 4)) = Inr b \<Longrightarrow>
   rgb_block parts i tags param lead opening =
     Inr (Some (i + 5, tags @ [opening @ py_str r @ '','' @ py_str g @ '','' @ py_str b @ '')]'']))"
  by (simp add: rgb_block_def directive_guard_def py_index_def rgb_triple_Inr)


lemma or_else_simps:
  "or_else (Inr None) rest = rest"
  "or_else (Inr (Some st)) rest = Inr st"
  by (simp_all add: or_else_def)

lemma sgr_loop_step_result:
  assumes "sgr_body (pre @ d @ rest) (length pre) tags = Inr (length pre + length d, tags')"
    and "d \<noteq> []"
  shows "\<exists>ts. sgr_loop rest 0 [] = Inr ts \<and>
              sgr_loop (pre @ d @ rest) (length pre) tags = Inr (tags' @ ts)"
proof -
  obtain ts where ts: "sgr_loop rest 0 [] = Inr ts"
    using sgr_loop_returns [of rest 0 "[]"] by blast
  have lt: "length pre < length (pre @ d @ rest)" using assms(2) by (cases d) simp_all
  have "sgr_loop (pre @ d @ rest) (length pre) tags =
        sgr_loop (pre @ d @ rest) (length pre + length d) tags'"
    using assms(1) by (simp add: sgr_loop_unfold [OF lt])
  also have "\<dots> = map_result ((@) tags') (sgr_loop rest 0 [])"
    using sgr_loop_shift [of "pre @ d" rest 0 tags' "[]"] by simp
  finally show ?thesis using ts by simp
qed

lemma sgr_loop_steps:
  "sgr_steps k parts i tags = Inr (j, t) \<Longrightarrow> sgr_loop parts i tags = sgr_loop parts j t"
proof (induction k arbitrary: i tags)
  case 0
  then show ?case by simp
next
  case (Suc k)
  show ?case
  proof (cases "i < length parts")
    case False
    then show ?thesis using Suc.prems by simp
  next
    case True
    then obtain j' t' where b: "sgr_body parts i tags = Inr (j', t')"
      using sgr_body_returns [of i parts tags] by auto
    then have "sgr_steps k parts j' t' = Inr (j, t)"
      using Suc.prems True by simp
    then have "sgr_loop parts j' t' = sgr_loop parts j t" by (rule Suc.IH)
    then show ?thesis using b by (simp add: sgr_loop_unfold [OF True])
  qed
qed

lemma split_str_length: "0 < length (split_str sep s)"
  by (induction s) (simp_all split: list.splits)

lemma parse_sgr_loop:
  assumes "split_str (CHR '';'') params = parts" and "2 \<le> length parts"
  shows "parse_sgr params = map_result concat (sgr_loop parts 0 [])"
proof -
  have "params \<noteq> []" "params \<noteq> ''0''" using assms by auto
  then show ?thesis
    using assms(1) by (cases "sgr_loop parts 0 []") (simp_all add: parse_sgr_def)
qed

lemma parse_sgr_from_scan:
  assumes "split_str (CHR '';'') params = parts" and "2 \<le> length parts"
    and "sgr_steps k parts 0 [] = Inr (i, tags)" and "sgr_loop parts i tags = Inr out"
  shows "parse_sgr params = Inr (concat out)"
  using parse_sgr_loop [OF assms(1,2)] sgr_loop_steps [OF assms(3)] assms(4) by simp

lemma sgr_directive_result:
  assumes "sgr_body (pre @ d @ rest) (length pre) tags = Inr (length pre + length d, tags')"
    and "2 \<le> length d"
  shows "\<exists>ts. sgr_loop rest 0 [] = Inr ts \<and>
              sgr_loop (pre @ d @ rest) (length pre) tags = Inr (tags' @ ts) \<and>
              (\<forall>params k.
                 split_str (CHR '';'') params = pre @ d @ rest \<and>
                 sgr_steps k (pre @ d @ rest) 0 [] = Inr (length pre, tags) \<longrightarrow>
                 parse_sgr params = Inr (concat (tags' @ ts)))"
proof -
  have d: "d \<noteq> []" using assms(2) by auto
  obtain ts where ts: "sgr_loop rest 0 [] = Inr ts"
    and l: "sgr_loop (pre @ d @ rest) (length pre) tags = Inr (tags' @ ts)"
    using sgr_loop_step_result [OF assms(1) d] by blast
  have len: "2 \<le> length (pre @ d @ rest)" using assms(2) by simp
  have "parse_sgr params = Inr (concat (tags' @ ts))"
    if "split_str (CHR '';'') params = pre @ d @ rest"
      and "sgr_steps k (pre @ d @ rest) 0 [] = Inr (length pre, tags)" for params k
    using parse_sgr_from_scan [OF that(1) len that(2) l] .
  then show ?thesis using ts l by blast
qed

lemma sgr_body_fg256:
  assumes "py_int s = Inr n"
  shows "sgr_body (pre @ ''38'' # ''5'' # s # rest) (length pre) tags =
           Inr (length pre + 3, tags @ [''[color('' @ py_str n @ '')]''])"
  using assms
  by (simp add: sgr_body_def py_index_def nth_append or_else_simps
        color256_block_Some_eq [where n = n])

lemma sgr_body_bg256:
  assumes "py_int s = Inr n"
  shows "sgr_body (pre @ ''48'' # ''5'' # s # rest) (length pre) tags =
           Inr (length pre + 3, tags @ [''[on color('' @ py_str n @ '')]''])"
  using assms
  by (simp add: sgr_body_def py_index_def nth_append or_else_simps color256_block_None
        color256_block_Some_eq [where n = n])

lemma sgr_body_fgrgb:
  assumes "py_int sr = Inr r" "py_int sg = Inr g" "py_int sb = Inr b"
  shows "sgr_body (pre @ ''38'' # ''2'' # sr # sg # sb # rest) (length pre) tags =
           Inr (length pre + 5,
                tags @ [''[rgb('' @ py_str r @ '','' @ py_str g @ '','' @ py_str b @ '')]''])"
  using assms
  by (simp add: sgr_body_def py_index_def nth_append or_else_simps color256_block_None
        rgb_block_Some_eq [where r = r and g = g and b = b])

lemma sgr_body_bgrgb:
  assumes "py_int sr = Inr r" "py_int sg = Inr g" "py_int sb = Inr b"
  shows "sgr_body (pre @ ''48'' # ''2'' # sr # sg # sb # rest) (length pre) tags =
           Inr (length pre + 5,
                tags @ [''[on rgb('' @ py_str r @ '','' @ py_str g @ '','' @ py_str b @ '')]''])"
  using assms
  by (simp add: sgr_body_def py_index_def nth_append or_else_simps color256_block_None
        rgb_block_None rgb_block_Some_eq [where r = r and g = g and b = b])

subsection \<open>Facts about the escaper and the scanner\<close>

lemma str_replace_append:
  "str_replace old new (xs @ ys) = str_replace old new xs @ str_replace old new ys"
  by (induction xs) simp_all

lemma escape_rich_markup_append:
  "escape_rich_markup (xs @ ys) = escape_rich_markup xs @ escape_rich_markup ys"
  by (simp add: escape_rich_markup_def str_replace_append)

lemma escape_rich_markup_Nil: "escape_rich_markup [] = []"
  by (simp add: escape_rich_markup_def)

lemma ansi_all_match_ESC: "ansi_all_match s = Some n \<Longrightarrow> \<exists>r. s = ESC # r"
  by (cases s) (auto simp: ansi_all_match_def split: if_splits)

lemma csi_alt_le: "csi_alt s = Some n \<Longrightarrow> n \<le> length s"
proof -
  assume a: "csi_alt s = Some n"
  then obtain r where s: "s = CHR ''['' # r"
    by (cases s) (auto simp: csi_alt_def split: if_splits)
  have "length (takeWhile is_csi_param r) + length (dropWhile is_csi_param r) = length r"
    by (metis length_append takeWhile_dropWhile_id)
  then show ?thesis
    using a s by (auto simp: csi_alt_def split: list.splits if_splits)
qed

lemma st_opt_le: "st_opt s \<le> length s"
  by (auto simp: st_opt_def split: list.splits)

lemma bel_or_st_opt_le: "bel_or_st_opt s \<le> length s"
  using st_opt_le [of s] by (auto simp: bel_or_st_opt_def split: list.splits)

lemma run_split_length: "length (takeWhile P r) + length (dropWhile P r) = length r"
  by (metis length_append takeWhile_dropWhile_id)

lemma osc_alt_le: "osc_alt s = Some n \<Longrightarrow> n \<le> length s"
  using bel_or_st_opt_le [of "dropWhile is_osc_char (tl s)"]
    run_split_length [of is_osc_char "tl s"]
  by (cases s) (auto simp: osc_alt_def split: if_splits)

lemma dcs_alt_le: "dcs_alt s = Some n \<Longrightarrow> n \<le> length s"
  using st_opt_le [of "dropWhile is_dcs_char (tl s)"]
    run_split_length [of is_dcs_char "tl s"]
  by (cases s) (auto simp: dcs_alt_def split: if_splits)

lemma fe_alt_le: "fe_alt s = Some n \<Longrightarrow> n \<le> length s"
  by (cases s) (auto simp: fe_alt_def split: if_splits)

lemma ansi_all_match_le: "ansi_all_match s = Some n \<Longrightarrow> n \<le> length s"
  by (cases s)
     (auto simp: ansi_all_match_def split: if_splits option.splits
           dest: csi_alt_le osc_alt_le dcs_alt_le fe_alt_le)

text \<open>A span moved right by \<open>k\<close> characters.\<close>

definition shift_span :: "nat \<Rightarrow> nat \<times> nat \<Rightarrow> nat \<times> nat" where
  "shift_span k sp = (k + fst sp, k + snd sp)"

lemma shift_span_pair: "shift_span k (a, b) = (k + a, k + b)"
  by (simp add: shift_span_def)

lemma finditer_from_unfold:
  "pos < length text \<Longrightarrow>
   finditer_from text pos =
     (case ansi_all_match (drop pos text) of
        Some n \<Rightarrow> (pos, pos + n) # finditer_from text (pos + n)
      | None \<Rightarrow> finditer_from text (pos + 1))"
  by (subst finditer_from.simps) simp

lemma finditer_from_done: "\<not> pos < length text \<Longrightarrow> finditer_from text pos = []"
  by (subst finditer_from.simps) simp

lemma finditer_from_shift:
  "finditer_from (pre @ s) (length pre + p) = map (shift_span (length pre)) (finditer_from s p)"
proof (induction s p rule: finditer_from.induct)
  case (1 t0 pos)
  show ?case
  proof (cases "pos < length t0")
    case False
    then show ?thesis by (simp add: finditer_from_done)
  next
    case True
    then have L: "length pre + pos < length (pre @ t0)" by simp
    show ?thesis
    proof (cases "ansi_all_match (drop pos t0)")
      case None
      then show ?thesis
        using "1.IH"(1) [OF True None]
        by (simp add: finditer_from_unfold [OF True] finditer_from_unfold [OF L])
    next
      case (Some n)
      then show ?thesis
        using "1.IH"(2) [OF True Some]
        by (simp add: finditer_from_unfold [OF True] finditer_from_unfold [OF L]
              shift_span_def add.assoc)
    qed
  qed
qed

lemma finditer_Nil: "finditer [] = []"
  by (simp add: finditer_def finditer_from_done)

lemma finditer_no_match:
  assumes "ansi_all_match (c # t) = None"
  shows "finditer (c # t) = map (shift_span 1) (finditer t)"
proof -
  have "finditer (c # t) = finditer_from ([c] @ t) (length [c] + 0)"
    using assms by (simp add: finditer_def finditer_from_unfold)
  then show ?thesis
    by (simp only: finditer_from_shift) (simp add: finditer_def)
qed

lemma finditer_match:
  assumes "ansi_all_match t = Some n"
  shows "finditer t = (0, n) # map (shift_span n) (finditer (drop n t))"
proof -
  have n: "n \<le> length t" "0 < n"
    using assms ansi_all_match_le ansi_all_match_bounds by auto
  then have "0 < length t" by arith
  then have "finditer t = (0, n) # finditer_from t n"
    using assms by (simp add: finditer_def finditer_from_unfold)
  also have "finditer_from t n = finditer_from (take n t @ drop n t) (length (take n t) + 0)"
    using n by simp
  also have "\<dots> = map (shift_span n) (finditer (drop n t))"
    using n by (simp only: finditer_from_shift) (simp add: finditer_def)
  finally show ?thesis .
qed

subsection \<open>Facts about the converter\<close>

text \<open>What one match adds to the output: the markup of an SGR sequence, nothing otherwise.\<close>

definition seq_markup :: "string \<Rightarrow> py_error + string" where
  "seq_markup seq =
     (case csi_fullmatch seq of
        None \<Rightarrow> Inr []
      | Some (params, cmd) \<Rightarrow> if cmd = CHR ''m'' then parse_sgr params else Inr [])"

text \<open>The converted text, from the state \<open>last_end\<close> of the loop and the matches still to come.\<close>

definition ansi_out :: "string \<Rightarrow> (nat \<times> nat) list \<Rightarrow> nat \<Rightarrow> py_error + string" where
  "ansi_out t ms last_end =
     (case ansi_loop t ms last_end [] of
        Inl e \<Rightarrow> Inl e
      | Inr (l, result) \<Rightarrow> Inr (concat (result @ [escape_rich_markup (slice_from t l)])))"

lemma ansi_to_rich_ansi_out: "ansi_to_rich t = ansi_out t (finditer t) 0"
  by (simp add: ansi_to_rich_def ansi_out_def)

lemma ansi_loop_acc:
  "ansi_loop t ms le (acc @ result) =
     map_result (\<lambda>(l, r). (l, acc @ r)) (ansi_loop t ms le result)"
proof (induction ms arbitrary: le result)
  case Nil
  then show ?case by simp
next
  case (Cons m ms)
  obtain a b where m: "m = (a, b)" by (cases m)
  have step: "ansi_loop t ms b (acc @ r) = map_result (\<lambda>(l, r). (l, acc @ r)) (ansi_loop t ms b r)"
    for r
    by (rule Cons.IH)
  show ?case
    using step [of "result @ [escape_rich_markup (slice t le a)]"]
      step [of "result @ [escape_rich_markup (slice t le a), x]" for x]
    by (simp add: m Let_def split: option.splits sum.splits prod.splits)
qed

lemma ansi_out_Nil: "ansi_out t [] le = Inr (escape_rich_markup (drop le t))"
  by (simp add: ansi_out_def slice_from_def)

lemma ansi_out_Cons:
  "ansi_out t ((a, b) # ms) le =
     (case seq_markup (slice t a b) of
        Inl e \<Rightarrow> Inl e
      | Inr m \<Rightarrow> map_result (\<lambda>r. escape_rich_markup (slice t le a) @ m @ r) (ansi_out t ms b))"
proof -
  have acc: "ansi_loop t ms b r = map_result (\<lambda>(l, r'). (l, r @ r')) (ansi_loop t ms b [])" for r
    using ansi_loop_acc [of t ms b r "[]"] by simp
  show ?thesis
    unfolding ansi_out_def seq_markup_def
    by (cases "ansi_loop t ms b []")
       (auto simp: Let_def acc [of "[x]" for x] acc [of "[x, y]" for x y]
             split: option.splits sum.splits prod.splits)
qed

lemma slice_shift: "slice (pre @ s) (length pre + a) (length pre + b) = slice s a b"
  by (simp add: slice_def)

lemma ansi_out_shift:
  "ansi_out (pre @ s) (map (shift_span (length pre)) ms) (length pre + le) = ansi_out s ms le"
proof (induction ms arbitrary: le)
  case Nil
  then show ?case by (simp add: ansi_out_Nil)
next
  case (Cons m ms)
  obtain a b where m: "m = (a, b)" by (cases m)
  show ?case
    using Cons.IH [of b]
    by (simp add: m shift_span_pair ansi_out_Cons slice_shift split: sum.splits)
qed

lemma ansi_out_skip_char:
  "ansi_out (c # t) (map (shift_span (Suc 0)) ms) 0 =
     map_result ((@) (escape_rich_markup [c]))
       (ansi_out (c # t) (map (shift_span (Suc 0)) ms) (Suc 0))"
proof (cases ms)
  case Nil
  then show ?thesis
    using escape_rich_markup_append [of "[c]" t] by (simp add: ansi_out_Nil)
next
  case (Cons m ms')
  obtain a b where m: "m = (a, b)" by (cases m)
  have "slice (c # t) 0 (Suc a) = [c] @ slice (c # t) (Suc 0) (Suc a)"
    by (simp add: slice_def)
  then have "escape_rich_markup (slice (c # t) 0 (Suc a)) =
             escape_rich_markup [c] @ escape_rich_markup (slice (c # t) (Suc 0) (Suc a))"
    by (simp only: escape_rich_markup_append)
  then show ?thesis
    by (cases "ansi_out (c # t) (map (shift_span (Suc 0)) ms') (Suc b)")
       (simp_all add: Cons m shift_span_pair ansi_out_Cons split: sum.splits)
qed

lemma ansi_to_rich_Nil: "ansi_to_rich [] = Inr []"
  by (simp add: ansi_to_rich_ansi_out finditer_Nil ansi_out_Nil escape_rich_markup_Nil)

lemma ansi_to_rich_no_match:
  assumes "ansi_all_match (c # t) = None"
  shows "ansi_to_rich (c # t) = map_result ((@) (escape_rich_markup [c])) (ansi_to_rich t)"
proof -
  have "ansi_out ([c] @ t) (map (shift_span (length [c])) (finditer t)) (length [c] + 0) =
        ansi_out t (finditer t) 0"
    by (rule ansi_out_shift)
  then show ?thesis
    by (simp add: ansi_to_rich_ansi_out finditer_no_match [OF assms] ansi_out_skip_char)
qed

lemma ansi_to_rich_match:
  assumes "ansi_all_match t = Some n"
  shows "ansi_to_rich t =
           (case seq_markup (take n t) of
              Inl e \<Rightarrow> Inl e
            | Inr m \<Rightarrow> map_result ((@) m) (ansi_to_rich (drop n t)))"
proof -
  have n: "n \<le> length t" using assms by (rule ansi_all_match_le)
  have "ansi_out (take n t @ drop n t) (map (shift_span (length (take n t))) (finditer (drop n t)))
          (length (take n t) + 0) = ansi_out (drop n t) (finditer (drop n t)) 0"
    by (rule ansi_out_shift)
  then have "ansi_out t (map (shift_span n) (finditer (drop n t))) n = ansi_to_rich (drop n t)"
    using n by (simp add: ansi_to_rich_ansi_out)
  then show ?thesis
    by (simp add: ansi_to_rich_ansi_out [of t] finditer_match [OF assms] ansi_out_Cons slice_def
          escape_rich_markup_Nil split: sum.splits)
qed

lemma parse_sgr_returns: "\<exists>out. parse_sgr params = Inr out"
proof -
  obtain ts where "sgr_loop (split_str (CHR '';'') params) 0 [] = Inr ts"
    using sgr_loop_returns by blast
  then show ?thesis by (simp add: parse_sgr_def)
qed

lemma seq_markup_returns: "\<exists>out. seq_markup seq = Inr out"
  using parse_sgr_returns by (auto simp: seq_markup_def split: option.splits)

lemma ansi_to_rich_returns: "\<exists>out. ansi_to_rich t = Inr out"
proof (induction "length t" arbitrary: t rule: less_induct)
  case less
  show ?case
  proof (cases t)
    case Nil
    then show ?thesis by (simp add: ansi_to_rich_Nil)
  next
    case (Cons c t')
    show ?thesis
    proof (cases "ansi_all_match t")
      case None
      obtain out where "ansi_to_rich t' = Inr out"
        using less [of t'] Cons by auto
      then show ?thesis
        using None Cons by (simp add: ansi_to_rich_no_match)
    next
      case (Some n)
      have "0 < n" using Some by (rule ansi_all_match_bounds)
      then obtain out where "ansi_to_rich (drop n t) = Inr out"
        using less [of "drop n t"] Cons by auto
      moreover obtain m where "seq_markup (take n t) = Inr m"
        using seq_markup_returns by blast
      ultimately show ?thesis
        by (simp add: ansi_to_rich_match [OF Some])
    qed
  qed
qed

text \<open>The text \<open>ansi_to_rich\<close> returns, and the markup of one match.\<close>

definition rich :: "string \<Rightarrow> string" where
  "rich t = (case ansi_to_rich t of Inl e \<Rightarrow> [] | Inr out \<Rightarrow> out)"

definition markup_of :: "string \<Rightarrow> string" where
  "markup_of seq = (case seq_markup seq of Inl e \<Rightarrow> [] | Inr out \<Rightarrow> out)"

lemma ansi_to_rich_rich: "ansi_to_rich t = Inr (rich t)"
  using ansi_to_rich_returns [of t] by (auto simp: rich_def)

lemma seq_markup_markup_of: "seq_markup seq = Inr (markup_of seq)"
  using seq_markup_returns [of seq] by (auto simp: markup_of_def)

lemma rich_Nil: "rich [] = []"
  by (simp add: rich_def ansi_to_rich_Nil)

lemma rich_no_match:
  "ansi_all_match (c # t) = None \<Longrightarrow> rich (c # t) = escape_rich_markup [c] @ rich t"
  using ansi_to_rich_no_match [of c t]
  by (simp add: ansi_to_rich_rich)

lemma rich_match:
  "ansi_all_match t = Some n \<Longrightarrow> rich t = markup_of (take n t) @ rich (drop n t)"
  using ansi_to_rich_match [of t n]
  by (simp add: ansi_to_rich_rich seq_markup_markup_of)

lemma ansi_all_match_not_ESC: "c \<noteq> ESC \<Longrightarrow> ansi_all_match (c # t) = None"
  by (simp add: ansi_all_match_def)

lemma rich_literal_prefix: "ESC \<notin> set pre \<Longrightarrow> rich (pre @ s) = escape_rich_markup pre @ rich s"
proof (induction pre)
  case Nil
  then show ?case by (simp add: escape_rich_markup_Nil)
next
  case (Cons c pre)
  then have "ansi_all_match (c # pre @ s) = None"
    by (intro ansi_all_match_not_ESC) auto
  then show ?case
    using Cons escape_rich_markup_append [of "[c]" pre]
    by (simp add: rich_no_match)
qed

lemma finditer_literal: "ESC \<notin> set t \<Longrightarrow> finditer t = []"
proof (induction t)
  case Nil
  then show ?case by (simp add: finditer_Nil)
next
  case (Cons c t)
  then have "ansi_all_match (c # t) = None"
    by (intro ansi_all_match_not_ESC) auto
  then show ?case using Cons by (simp add: finditer_no_match)
qed

lemma ansi_to_rich_no_matches:
  "finditer t = [] \<Longrightarrow> ansi_to_rich t = Inr (escape_rich_markup t)"
  by (simp add: ansi_to_rich_ansi_out ansi_out_Nil)

subsection \<open>Facts about colon-separated parameters\<close>

lemma table_keys_no_colon: "map_of ANSI_TO_RICH k = Some v \<Longrightarrow> CHR '':'' \<notin> set k"
proof -
  assume "map_of ANSI_TO_RICH k = Some v"
  then have "(k, v) \<in> set ANSI_TO_RICH" by (rule map_of_SomeD)
  then have "k \<in> fst ` set ANSI_TO_RICH" by force
  moreover have "\<forall>k \<in> fst ` set ANSI_TO_RICH. CHR '':'' \<notin> set k"
    by (simp add: ANSI_TO_RICH_def)
  ultimately show ?thesis by blast
qed

lemma split_str_no_sep: "sep \<notin> set s \<Longrightarrow> split_str sep s = [s]"
  by (induction s) auto

lemma parse_sgr_colon:
  assumes "CHR '':'' \<in> set params" and "CHR '';'' \<notin> set params"
  shows "parse_sgr params = Inr []"
proof -
  have ne: "params \<noteq> []" "params \<noteq> ''0''" "params \<noteq> ''38''" "params \<noteq> ''48''"
    using assms(1) by auto
  have t: "map_of ANSI_TO_RICH params = None"
    using table_keys_no_colon [of params] assms(1) by (cases "map_of ANSI_TO_RICH params") auto
  have body: "sgr_body [params] 0 [] = Inr (1, [])"
    using ne by (simp add: sgr_body_def py_index_def color256_block_None rgb_block_None
        or_else_simps basic_block_def t)
  have "0 < length [params]" by simp
  then have "sgr_loop [params] 0 [] = sgr_loop [params] 1 []"
    using body by (simp add: sgr_loop_unfold)
  then have "sgr_loop [params] 0 [] = Inr []"
    by (simp add: sgr_loop_done)
  then show ?thesis
    using ne assms(2) by (simp add: parse_sgr_def split_str_no_sep)
qed

lemma is_letter_m: "is_letter (CHR ''m'')" and not_param_m: "\<not> is_csi_param (CHR ''m'')"
  by (simp_all add: is_letter_def is_csi_param_def is_digit_def)

lemma csi_run:
  assumes "\<forall>c \<in> set params. is_csi_param c"
  shows "takeWhile is_csi_param (params @ CHR ''m'' # post) = params"
    and "dropWhile is_csi_param (params @ CHR ''m'' # post) = CHR ''m'' # post"
  using assms not_param_m by (simp_all add: takeWhile_append2 dropWhile_append2)

lemma ansi_all_match_csi_m:
  assumes "\<forall>c \<in> set params. is_csi_param c"
  shows "ansi_all_match (ESC # CHR ''['' # params @ CHR ''m'' # post) = Some (length params + 3)"
  by (simp add: ansi_all_match_def csi_alt_def csi_run [OF assms] is_letter_m)

lemma csi_fullmatch_m:
  assumes "\<forall>c \<in> set params. is_csi_param c"
  shows "csi_fullmatch (ESC # CHR ''['' # params @ [CHR ''m'']) = Some (params, CHR ''m'')"
  by (simp add: csi_fullmatch_def csi_run [OF assms] is_letter_m)

subsection \<open>A match does not depend on what follows it\<close>

lemma run_append_open:
  "dropWhile P xs = [] \<Longrightarrow> takeWhile P (xs @ ys) = xs @ takeWhile P ys"
  "dropWhile P xs = [] \<Longrightarrow> dropWhile P (xs @ ys) = dropWhile P ys"
  by (simp_all add: dropWhile_eq_Nil_conv takeWhile_append2 dropWhile_append2)

lemma run_append_closed:
  assumes "dropWhile P xs \<noteq> []"
  shows "takeWhile P (xs @ ys) = takeWhile P xs"
    and "dropWhile P (xs @ ys) = dropWhile P xs @ ys"
proof -
  obtain x where "x \<in> set xs" "\<not> P x"
    using assms by (auto simp: dropWhile_eq_Nil_conv)
  then show "takeWhile P (xs @ ys) = takeWhile P xs"
    and "dropWhile P (xs @ ys) = dropWhile P xs @ ys"
    by (simp_all add: takeWhile_append1 dropWhile_append1)
qed

lemma st_opt_prefix: "d \<noteq> [] \<Longrightarrow> st_opt (d @ b) \<le> length d \<Longrightarrow> st_opt d = st_opt (d @ b)"
  by (cases d; cases "tl d"; cases b) (auto simp: st_opt_def split: if_splits)

lemma bel_or_st_opt_prefix:
  "d \<noteq> [] \<Longrightarrow> bel_or_st_opt (d @ b) \<le> length d \<Longrightarrow> bel_or_st_opt d = bel_or_st_opt (d @ b)"
  using st_opt_prefix [of d b]
  by (cases d) (auto simp: bel_or_st_opt_def split: if_splits)

lemma csi_alt_prefix:
  assumes "csi_alt (r @ b) = Some k" and "k \<le> length r"
  shows "csi_alt r = Some k"
proof -
  obtain r' where r: "r = CHR ''['' # r'"
    using assms by (cases r) (auto simp: csi_alt_def split: if_splits list.splits)
  show ?thesis
  proof (cases "dropWhile is_csi_param r' = []")
    case True
    then have "length r' \<le> length (takeWhile is_csi_param (r' @ b))"
      by (simp add: run_append_open)
    then show ?thesis
      using assms r by (auto simp: csi_alt_def split: if_splits list.splits)
  next
    case False
    then show ?thesis
      using assms r by (auto simp: csi_alt_def run_append_closed split: if_splits list.splits)
  qed
qed

lemma osc_alt_prefix:
  assumes "osc_alt (r @ b) = Some k" and "k \<le> length r"
  shows "osc_alt r = Some k"
proof -
  obtain r' where r: "r = CHR '']'' # r'"
    using assms by (cases r) (auto simp: osc_alt_def split: if_splits list.splits)
  show ?thesis
  proof (cases "dropWhile is_osc_char r' = []")
    case True
    have tw: "takeWhile is_osc_char r' = r'"
      using takeWhile_dropWhile_id [of is_osc_char r'] True by simp
    have a: "osc_alt r = Some (1 + length r')"
      by (simp add: r osc_alt_def tw True bel_or_st_opt_def)
    have "1 + length r' \<le> k"
      using assms(1) by (auto simp: r osc_alt_def run_append_open [OF True])
    then show ?thesis using a assms(2) r by simp
  next
    case False
    have len: "length (takeWhile is_osc_char r') + length (dropWhile is_osc_char r') = length r'"
      by (rule run_split_length)
    have "bel_or_st_opt (dropWhile is_osc_char r' @ b) \<le> length (dropWhile is_osc_char r')"
      using assms r False len by (auto simp: osc_alt_def run_append_closed)
    then show ?thesis
      using assms r False bel_or_st_opt_prefix [OF False, of b]
      by (auto simp: osc_alt_def run_append_closed)
  qed
qed

lemma dcs_alt_prefix:
  assumes "dcs_alt (r @ b) = Some k" and "k \<le> length r"
  shows "dcs_alt r = Some k"
proof -
  obtain c r' where r: "r = c # r'" "is_dcs_intro c"
    using assms by (cases r) (auto simp: dcs_alt_def split: if_splits list.splits)
  show ?thesis
  proof (cases "dropWhile is_dcs_char r' = []")
    case True
    have tw: "takeWhile is_dcs_char r' = r'"
      using takeWhile_dropWhile_id [of is_dcs_char r'] True by simp
    have a: "dcs_alt r = Some (1 + length r')"
      by (simp add: r dcs_alt_def tw True st_opt_def)
    have "1 + length r' \<le> k"
      using assms(1) r(2) by (auto simp: r(1) dcs_alt_def run_append_open [OF True])
    then show ?thesis using a assms(2) r by simp
  next
    case False
    have len: "length (takeWhile is_dcs_char r') + length (dropWhile is_dcs_char r') = length r'"
      by (rule run_split_length)
    have "st_opt (dropWhile is_dcs_char r' @ b) \<le> length (dropWhile is_dcs_char r')"
      using assms r False len by (auto simp: dcs_alt_def run_append_closed)
    then show ?thesis
      using assms r False st_opt_prefix [OF False, of b]
      by (auto simp: dcs_alt_def run_append_closed)
  qed
qed

lemma fe_alt_prefix:
  assumes "fe_alt (r @ b) = Some k" and "k \<le> length r"
  shows "fe_alt r = Some k"
  using assms by (cases r) (auto simp: fe_alt_def split: if_splits list.splits)

lemma alt_None:
  "c \<noteq> CHR ''['' \<Longrightarrow> csi_alt (c # x) = None"
  "c \<noteq> CHR '']'' \<Longrightarrow> osc_alt (c # x) = None"
  "\<not> is_dcs_intro c \<Longrightarrow> dcs_alt (c # x) = None"
  "\<not> is_fe c \<Longrightarrow> fe_alt (c # x) = None"
  by (simp_all add: csi_alt_def osc_alt_def dcs_alt_def fe_alt_def)

lemma alt_Nil: "csi_alt [] = None" "osc_alt [] = None" "dcs_alt [] = None" "fe_alt [] = None"
  by (simp_all add: csi_alt_def osc_alt_def dcs_alt_def fe_alt_def)

lemma alt_pos:
  "csi_alt s = Some k \<Longrightarrow> 0 < k" "osc_alt s = Some k \<Longrightarrow> 0 < k"
  "dcs_alt s = Some k \<Longrightarrow> 0 < k" "fe_alt s = Some k \<Longrightarrow> 0 < k"
  by (auto simp: csi_alt_def osc_alt_def dcs_alt_def fe_alt_def split: list.splits if_splits)

lemma alt_Some:
  "osc_alt (CHR '']'' # x) \<noteq> None" "is_dcs_intro c \<Longrightarrow> dcs_alt (c # x) \<noteq> None"
  by (simp_all add: osc_alt_def dcs_alt_def)

lemma ansi_all_match_Cons:
  "ansi_all_match (ESC # r) =
     (case csi_alt r of
        Some n \<Rightarrow> Some (1 + n)
      | None \<Rightarrow>
          (case osc_alt r of
             Some n \<Rightarrow> Some (1 + n)
           | None \<Rightarrow>
               (case dcs_alt r of
                  Some n \<Rightarrow> Some (1 + n)
                | None \<Rightarrow> (case fe_alt r of Some n \<Rightarrow> Some (1 + n) | None \<Rightarrow> None))))"
  by (simp add: ansi_all_match_def)

lemma bracket_classes:
  "\<not> is_dcs_intro (CHR ''['')" "\<not> is_fe (CHR ''['')" "\<not> is_letter ESC" "\<not> is_csi_param ESC"
  by (simp_all add: is_dcs_intro_def is_fe_def is_letter_def is_csi_param_def is_digit_def
        BSL_def ESC_def)

lemma csi_alt_None_prefix:
  assumes "csi_alt (r @ ESC # b) = None"
  shows "csi_alt r = None"
proof (cases r)
  case Nil
  then show ?thesis by (simp add: alt_Nil)
next
  case (Cons c r')
  show ?thesis
  proof (cases "dropWhile is_csi_param r' = []")
    case True
    show ?thesis by (simp add: Cons csi_alt_def True)
  next
    case False
    then show ?thesis
      using assms
      by (auto simp: Cons csi_alt_def run_append_closed split: if_splits list.splits)
  qed
qed

lemma ansi_all_match_None_prefix:
  assumes "ansi_all_match (a @ ESC # b) = None"
  shows "ansi_all_match a = None"
proof (cases a)
  case Nil
  then show ?thesis by (simp add: ansi_all_match_def)
next
  case (Cons e r)
  show ?thesis
  proof (cases "e = ESC")
    case False
    then show ?thesis by (simp add: Cons ansi_all_match_not_ESC)
  next
    case True
    have m: "ansi_all_match (ESC # r @ ESC # b) = None"
      using assms Cons True by simp
    show ?thesis
    proof (cases r)
      case Nil
      then show ?thesis by (simp add: Cons True ansi_all_match_Cons alt_Nil)
    next
      case c: (Cons c r')
      have csi: "csi_alt (r @ ESC # b) = None" and osc: "osc_alt (r @ ESC # b) = None"
        and dcs: "dcs_alt (r @ ESC # b) = None" and fe: "fe_alt (r @ ESC # b) = None"
        using m by (auto simp: ansi_all_match_Cons split: option.splits)
      have "c \<noteq> CHR '']''" using osc c by (auto simp: osc_alt_def)
      moreover have "\<not> is_dcs_intro c" using dcs c by (auto simp: dcs_alt_def)
      moreover have "\<not> is_fe c" using fe c by (auto simp: fe_alt_def)
      ultimately show ?thesis
        using csi_alt_None_prefix [OF csi]
        by (simp add: Cons True c ansi_all_match_Cons alt_None)
    qed
  qed
qed

lemma ansi_all_match_prefix:
  assumes "ansi_all_match (a @ b) = Some n" and "n \<le> length a"
  shows "ansi_all_match a = Some n"
proof -
  have "0 < n" using assms(1) by (rule ansi_all_match_bounds)
  then obtain e r where a: "a = e # r" using assms(2) by (cases a) auto
  have e: "e = ESC" using assms(1) a ansi_all_match_ESC [of "a @ b" n] by auto
  have m: "ansi_all_match (ESC # r @ b) = Some n" using assms(1) a e by simp
  show ?thesis
  proof (cases r)
    case Nil
    then show ?thesis
      using m assms(2) a
      by (auto simp: ansi_all_match_Cons split: option.splits dest: alt_pos)
  next
    case c: (Cons c r')
    consider (csi) "c = CHR ''[''" | (osc) "c = CHR '']''"
      | (dcs) "c \<noteq> CHR ''[''" "c \<noteq> CHR '']''" "is_dcs_intro c"
      | (fe) "c \<noteq> CHR ''[''" "c \<noteq> CHR '']''" "\<not> is_dcs_intro c"
      by blast
    then show ?thesis
    proof cases
      case csi
      then obtain k where k: "csi_alt (r @ b) = Some k" "n = 1 + k"
        using m c by (auto simp: ansi_all_match_Cons alt_None bracket_classes split: option.splits)
      then have "csi_alt r = Some k"
        using csi_alt_prefix [of r b k] assms(2) a by simp
      then show ?thesis using k by (simp add: a e ansi_all_match_Cons)
    next
      case osc
      then obtain k where k: "osc_alt (r @ b) = Some k" "n = 1 + k"
        using m c alt_Some(1) [of "r' @ b"]
        by (auto simp: ansi_all_match_Cons alt_None split: option.splits)
      then have "osc_alt r = Some k"
        using osc_alt_prefix [of r b k] assms(2) a by simp
      then show ?thesis using k osc c by (simp add: a e ansi_all_match_Cons alt_None)
    next
      case dcs
      then obtain k where k: "dcs_alt (r @ b) = Some k" "n = 1 + k"
        using m c alt_Some(2) [of c "r' @ b"]
        by (auto simp: ansi_all_match_Cons alt_None split: option.splits)
      then have "dcs_alt r = Some k"
        using dcs_alt_prefix [of r b k] assms(2) a by simp
      then show ?thesis using k dcs c by (simp add: a e ansi_all_match_Cons alt_None)
    next
      case fe
      then obtain k where k: "fe_alt (r @ b) = Some k" "n = 1 + k"
        using m c by (auto simp: ansi_all_match_Cons alt_None split: option.splits)
      then have "fe_alt r = Some k"
        using fe_alt_prefix [of r b k] assms(2) a by simp
      then show ?thesis using k fe c by (simp add: a e ansi_all_match_Cons alt_None)
    qed
  qed
qed

lemma finditer_span_match:
  "(a, b) \<in> set (finditer t) \<Longrightarrow> ansi_all_match (drop a t) = Some (b - a) \<and> a < b"
proof (induction "length t" arbitrary: t a b rule: less_induct)
  case less
  show ?case
  proof (cases t)
    case Nil
    then show ?thesis using less.prems by (simp add: finditer_Nil)
  next
    case (Cons c t')
    show ?thesis
    proof (cases "ansi_all_match t")
      case None
      then have "finditer t = map (shift_span 1) (finditer t')"
        using Cons finditer_no_match by simp
      then obtain a' b' where ab: "(a', b') \<in> set (finditer t')" "a = 1 + a'" "b = 1 + b'"
        using less.prems by (auto simp: shift_span_def)
      then show ?thesis
        using less.hyps [of t' a' b'] Cons by simp
    next
      case (Some n)
      have n: "0 < n" "n \<le> length t"
        using Some ansi_all_match_bounds ansi_all_match_le by auto
      have f: "finditer t = (0, n) # map (shift_span n) (finditer (drop n t))"
        using Some by (rule finditer_match)
      show ?thesis
      proof (cases "(a, b) = (0, n)")
        case True
        then show ?thesis using Some n by simp
      next
        case False
        then obtain a' b' where ab: "(a', b') \<in> set (finditer (drop n t))" "a = n + a'" "b = n + b'"
          using less.prems f by (auto simp: shift_span_def)
        have "length (drop n t) < length t" using n Cons by simp
        then show ?thesis
          using less.hyps [of "drop n t" a' b'] ab by (simp add: add.commute)
      qed
    qed
  qed
qed

text \<open>
  Where the scan of \<open>pre @ s\<close> finds a match that starts at the end of \<open>pre\<close>, the
  conversion of \<open>pre @ s\<close> is the conversion of \<open>pre\<close> followed by that of \<open>s\<close>.
\<close>

lemma rich_append_at_match:
  "(length pre, e) \<in> set (finditer (pre @ s)) \<Longrightarrow> rich (pre @ s) = rich pre @ rich s"
proof (induction "length pre" arbitrary: pre e rule: less_induct)
  case less
  have "ansi_all_match (drop (length pre) (pre @ s)) = Some (e - length pre)"
    using finditer_span_match [OF less.prems] by simp
  then obtain s' where s: "s = ESC # s'"
    using ansi_all_match_ESC [of s] by auto
  show ?case
  proof (cases pre)
    case Nil
    then show ?thesis by (simp add: rich_Nil)
  next
    case (Cons c p')
    show ?thesis
    proof (cases "ansi_all_match (pre @ s)")
      case None
      then have none_pre: "ansi_all_match pre = None"
        using ansi_all_match_None_prefix [of pre s'] s by simp
      have "finditer (pre @ s) = map (shift_span 1) (finditer (p' @ s))"
        using None Cons finditer_no_match [of c "p' @ s"] by simp
      then obtain e' where "(length p', e') \<in> set (finditer (p' @ s))"
        using less.prems Cons by (auto simp: shift_span_def)
      then have "rich (p' @ s) = rich p' @ rich s"
        using less.hyps [of p' e'] Cons by simp
      then show ?thesis
        using None none_pre Cons by (simp add: rich_no_match)
    next
      case (Some n)
      have n: "0 < n" using Some by (rule ansi_all_match_bounds)
      have f: "finditer (pre @ s) = (0, n) # map (shift_span n) (finditer (drop n (pre @ s)))"
        using Some by (rule finditer_match)
      then obtain a' e' where ae: "(a', e') \<in> set (finditer (drop n (pre @ s)))"
        "length pre = n + a'"
        using less.prems Cons by (auto simp: shift_span_def)
      then have le: "n \<le> length pre" by simp
      then have some_pre: "ansi_all_match pre = Some n"
        using Some ansi_all_match_prefix by blast
      have "(length (drop n pre), e') \<in> set (finditer (drop n pre @ s))"
        using ae le by simp
      moreover have "length (drop n pre) < length pre" using n Cons by simp
      ultimately have "rich (drop n pre @ s) = rich (drop n pre) @ rich s"
        using less.hyps [of "drop n pre" e'] by simp
      then show ?thesis
        using le by (simp add: rich_match [OF Some] rich_match [OF some_pre])
    qed
  qed
qed

lemma markup_of_non_sgr:
  "\<forall>params. csi_fullmatch seq \<noteq> Some (params, CHR ''m'') \<Longrightarrow> markup_of seq = []"
  by (auto simp: markup_of_def seq_markup_def split: option.splits)

lemma rich_at_match:
  assumes "(length pre, length pre + length seq) \<in> set (finditer (pre @ seq @ post))"
  shows "rich (pre @ seq @ post) = rich pre @ markup_of seq @ rich post"
proof -
  have "ansi_all_match (drop (length pre) (pre @ seq @ post)) = Some (length seq)"
    using finditer_span_match [OF assms] by simp
  then have "ansi_all_match (seq @ post) = Some (length seq)" by simp
  then have "rich (seq @ post) = markup_of seq @ rich post"
    using rich_match [of "seq @ post" "length seq"] by simp
  then show ?thesis
    using rich_append_at_match [OF assms] by simp
qed

subsection \<open>Facts about the line assembler\<close>

text \<open>One pass of the loop of \<open>process\<close>: the next index, the lines and the buffer.\<close>

definition process_step ::
  "string \<Rightarrow> nat \<Rightarrow> string list \<Rightarrow> string \<Rightarrow> nat \<times> string list \<times> string" where
  "process_step t i ls line =
     (if t ! i = CR
      then (if i + 1 < length t \<and> t ! (i + 1) = LF
            then (i + 2, ls @ [line], [])
            else (i + 1, ls, []))
      else if t ! i = LF then (i + 1, ls @ [line], [])
      else if t ! i = BS then (i + 1, ls, if line \<noteq> [] then butlast line else line)
      else (i + 1, ls, line @ [t ! i]))"

lemma process_loop_step:
  "i < length t \<Longrightarrow>
   process_loop t i ls line =
     (case process_step t i ls line of (j, ls', line') \<Rightarrow> process_loop t j ls' line')"
  by (subst process_loop.simps) (simp add: process_step_def Let_def)

lemma process_loop_done: "\<not> i < length t \<Longrightarrow> process_loop t i ls line = (ls, line)"
  by (subst process_loop.simps) simp

lemma process_step_bounds:
  "i < length t \<Longrightarrow> process_step t i ls line = (j, ls', line') \<Longrightarrow> i < j \<and> j \<le> length t"
  by (auto simp: process_step_def split: if_splits)

lemma process_step_shift:
  "i < length t \<Longrightarrow>
   process_step (a @ t) (length a + i) ls line =
     (case process_step t i ls line of (j, ls', line') \<Rightarrow> (length a + j, ls', line'))"
  by (simp add: process_step_def nth_append add.assoc)

lemma process_step_prefix:
  assumes "i < length a" and "\<not> (a ! i = CR \<and> i + 1 = length a \<and> b \<noteq> [] \<and> hd b = LF)"
  shows "process_step (a @ b) i ls line = process_step a i ls line"
proof -
  have "(a @ b) ! (i + 1) = hd b" if "i + 1 = length a" "b \<noteq> []"
    using that by (simp add: nth_append hd_conv_nth)
  moreover have "(a @ b) ! (i + 1) = a ! (i + 1)" if "i + 1 < length a"
    using that by (simp add: nth_append)
  moreover have "(a @ b) ! i = a ! i" using assms(1) by (simp add: nth_append)
  moreover have "i + 1 < length a \<or> i + 1 = length a" using assms(1) by arith
  ultimately show ?thesis
    using assms unfolding process_step_def by (cases "b = []") auto
qed

text \<open>The loop over a second chunk is the loop over the joined text from the first chunk's end.\<close>

lemma process_loop_shift:
  "process_loop (a @ b) (length a + i) ls line = process_loop b i ls line"
proof (induction "length b - i" arbitrary: i ls line rule: less_induct)
  case less
  show ?case
  proof (cases "i < length b")
    case False
    then show ?thesis by (simp add: process_loop_done)
  next
    case True
    then have L: "length a + i < length (a @ b)" by simp
    obtain j ls' line' where st: "process_step b i ls line = (j, ls', line')"
      by (cases "process_step b i ls line") auto
    then have "i < j" "j \<le> length b"
      using process_step_bounds [OF True st] by auto
    then have "process_loop (a @ b) (length a + j) ls' line' = process_loop b j ls' line'"
      using less [of j ls' line'] True by simp
    then show ?thesis
      using st by (simp add: process_loop_step [OF True] process_loop_step [OF L]
          process_step_shift [OF True])
  qed
qed

text \<open>
  Feeding \<open>a\<close> and then \<open>b\<close> completes the lines, and leaves the buffer, of feeding
  \<open>a @ b\<close> at once, unless \<open>a\<close> ends with a carriage return and \<open>b\<close> starts with a
  line feed.
\<close>

lemma process_loop_split_from:
  assumes "\<not> (a \<noteq> [] \<and> last a = CR \<and> b \<noteq> [] \<and> hd b = LF)"
  shows "i \<le> length a \<Longrightarrow>
         process_loop (a @ b) i ls line =
           (case process_loop a i ls line of (ls', line') \<Rightarrow> process_loop b 0 ls' line')"
proof (induction "length a - i" arbitrary: i ls line rule: less_induct)
  case less
  show ?case
  proof (cases "i < length a")
    case False
    then have "i = length a" using less.prems by simp
    then show ?thesis
      using process_loop_shift [of a b 0 ls line] by (simp add: process_loop_done)
  next
    case True
    then have L: "i < length (a @ b)" by simp
    have "\<not> (a ! i = CR \<and> i + 1 = length a \<and> b \<noteq> [] \<and> hd b = LF)"
    proof
      assume h: "a ! i = CR \<and> i + 1 = length a \<and> b \<noteq> [] \<and> hd b = LF"
      then have ne: "a \<noteq> []" using True by auto
      have "length a - 1 = i" using h by arith
      then have "last a = a ! i" using ne by (simp add: last_conv_nth)
      then show False using assms h ne by simp
    qed
    then have pre: "process_step (a @ b) i ls line = process_step a i ls line"
      using process_step_prefix [OF True] by blast
    obtain j ls' line' where st: "process_step a i ls line = (j, ls', line')"
      by (cases "process_step a i ls line") auto
    then have j: "i < j" "j \<le> length a"
      using process_step_bounds [OF True st] by auto
    then have "process_loop (a @ b) j ls' line' =
        (case process_loop a j ls' line' of (ls'', line'') \<Rightarrow> process_loop b 0 ls'' line'')"
      using less.hyps [of j ls' line'] True by simp
    then show ?thesis
      using st pre by (simp add: process_loop_step [OF True] process_loop_step [OF L])
  qed
qed

lemma process_loop_split:
  assumes "\<not> (a \<noteq> [] \<and> last a = CR \<and> b \<noteq> [] \<and> hd b = LF)"
  shows "process_loop (a @ b) 0 [] line =
           (case process_loop a 0 [] line of (ls, line') \<Rightarrow> process_loop b 0 ls line')"
  using process_loop_split_from [OF assms, of 0 "[]" line] by simp

subsection \<open>Claims about the translator\<close>

text \<open>
  C2. Wherever the scan stands on a well-formed compound directive, one pass of the loop
  appends exactly one tag and moves the index past exactly the directive's slots, and the
  loop's result is the tags so far, that tag, and the translation of the parameters after
  the directive: \<open>38;5;N\<close> gives \<open>[color(N)]\<close> and takes 3 slots,
  \<open>38;2;R;G;B\<close> gives \<open>[rgb(R,G,B)]\<close> and takes 5, and with the lead
  \<open>48\<close> the tags are \<open>[on color(N)]\<close> and \<open>[on rgb(R,G,B)]\<close>. The
  numbers in the tag are the values \<open>int\<close> parsed, printed in decimal. For the
  translator as a whole: whenever the parameter string splits into a list with the
  directive in it and the scan of that list from its start comes to stand on the directive,
  \<open>_parse_sgr\<close> returns the tags collected up to there, the directive's one tag, and
  the translation of the parameters after it, joined. A directive at the start of the
  parameter string is the case of no pass and no tag before it.
\<close>

theorem sgr_compound_directive:
  assumes "py_int sn = Inr n" and "py_int sr = Inr r" and "py_int sg = Inr g"
    and "py_int sb = Inr b"
  shows
    "(sgr_body (pre @ ''38'' # ''5'' # sn # rest) (length pre) tags =
        Inr (length pre + 3, tags @ [''[color('' @ py_str n @ '')]'']) \<and>
      (\<exists>ts. sgr_loop rest 0 [] = Inr ts \<and>
         sgr_loop (pre @ ''38'' # ''5'' # sn # rest) (length pre) tags =
           Inr (tags @ [''[color('' @ py_str n @ '')]''] @ ts) \<and>
         (\<forall>params k.
            split_str (CHR '';'') params = pre @ ''38'' # ''5'' # sn # rest \<and>
            sgr_steps k (pre @ ''38'' # ''5'' # sn # rest) 0 [] =
              Inr (length pre, tags) \<longrightarrow>
            parse_sgr params =
              Inr (concat (tags @ [''[color('' @ py_str n @ '')]''] @ ts))))) \<and>
     (sgr_body (pre @ ''48'' # ''5'' # sn # rest) (length pre) tags =
        Inr (length pre + 3, tags @ [''[on color('' @ py_str n @ '')]'']) \<and>
      (\<exists>ts. sgr_loop rest 0 [] = Inr ts \<and>
         sgr_loop (pre @ ''48'' # ''5'' # sn # rest) (length pre) tags =
           Inr (tags @ [''[on color('' @ py_str n @ '')]''] @ ts) \<and>
         (\<forall>params k.
            split_str (CHR '';'') params = pre @ ''48'' # ''5'' # sn # rest \<and>
            sgr_steps k (pre @ ''48'' # ''5'' # sn # rest) 0 [] =
              Inr (length pre, tags) \<longrightarrow>
            parse_sgr params =
              Inr (concat (tags @ [''[on color('' @ py_str n @ '')]''] @ ts))))) \<and>
     (sgr_body (pre @ ''38'' # ''2'' # sr # sg # sb # rest) (length pre) tags =
        Inr (length pre + 5,
             tags @ [''[rgb('' @ py_str r @ '','' @ py_str g @ '','' @ py_str b @ '')]'']) \<and>
      (\<exists>ts. sgr_loop rest 0 [] = Inr ts \<and>
         sgr_loop (pre @ ''38'' # ''2'' # sr # sg # sb # rest) (length pre) tags =
           Inr (tags @ [''[rgb('' @ py_str r @ '','' @ py_str g @ '','' @ py_str b @ '')]'']
                  @ ts) \<and>
         (\<forall>params k.
            split_str (CHR '';'') params = pre @ ''38'' # ''2'' # sr # sg # sb # rest \<and>
            sgr_steps k (pre @ ''38'' # ''2'' # sr # sg # sb # rest) 0 [] =
              Inr (length pre, tags) \<longrightarrow>
            parse_sgr params =
              Inr (concat (tags @ [''[rgb('' @ py_str r @ '','' @ py_str g @ '','' @ py_str b @ '')]'']
                             @ ts))))) \<and>
     (sgr_body (pre @ ''48'' # ''2'' # sr # sg # sb # rest) (length pre) tags =
        Inr (length pre + 5,
             tags @ [''[on rgb('' @ py_str r @ '','' @ py_str g @ '','' @ py_str b @ '')]'']) \<and>
      (\<exists>ts. sgr_loop rest 0 [] = Inr ts \<and>
         sgr_loop (pre @ ''48'' # ''2'' # sr # sg # sb # rest) (length pre) tags =
           Inr (tags @ [''[on rgb('' @ py_str r @ '','' @ py_str g @ '','' @ py_str b @ '')]'']
                  @ ts) \<and>
         (\<forall>params k.
            split_str (CHR '';'') params = pre @ ''48'' # ''2'' # sr # sg # sb # rest \<and>
            sgr_steps k (pre @ ''48'' # ''2'' # sr # sg # sb # rest) 0 [] =
              Inr (length pre, tags) \<longrightarrow>
            parse_sgr params =
              Inr (concat (tags @ [''[on rgb('' @ py_str r @ '','' @ py_str g @ '','' @ py_str b @ '')]'']
                             @ ts)))))"
proof -
  have c1: "sgr_body (pre @ [''38'', ''5'', sn] @ rest) (length pre) tags =
              Inr (length pre + length [''38'', ''5'', sn],
                   tags @ [''[color('' @ py_str n @ '')]''])"
    using sgr_body_fg256 [OF assms(1), of pre rest tags] by simp
  have c2: "sgr_body (pre @ [''48'', ''5'', sn] @ rest) (length pre) tags =
              Inr (length pre + length [''48'', ''5'', sn],
                   tags @ [''[on color('' @ py_str n @ '')]''])"
    using sgr_body_bg256 [OF assms(1), of pre rest tags] by simp
  have c3: "sgr_body (pre @ [''38'', ''2'', sr, sg, sb] @ rest) (length pre) tags =
              Inr (length pre + length [''38'', ''2'', sr, sg, sb],
                   tags @ [''[rgb('' @ py_str r @ '','' @ py_str g @ '','' @ py_str b @ '')]''])"
    using sgr_body_fgrgb [OF assms(2,3,4), of pre rest tags] by simp
  have c4: "sgr_body (pre @ [''48'', ''2'', sr, sg, sb] @ rest) (length pre) tags =
              Inr (length pre + length [''48'', ''2'', sr, sg, sb],
                   tags @ [''[on rgb('' @ py_str r @ '','' @ py_str g @ '','' @ py_str b @ '')]''])"
    using sgr_body_bgrgb [OF assms(2,3,4), of pre rest tags] by simp
  show ?thesis
    using c1 c2 c3 c4 sgr_directive_result [OF c1] sgr_directive_result [OF c2]
      sgr_directive_result [OF c3] sgr_directive_result [OF c4]
    by simp
qed

text \<open>
  The four directives after a \<open>1\<close> and before a \<open>4\<close>: one pass brings the scan
  from the start to index 1 with the tag of \<open>1\<close>. And \<open>38;5;196\<close> alone, where
  the scan stands on the directive before any pass.
\<close>

theorem sgr_compound_directive_witness:
  "py_int ''196'' = Inr 196 \<and> py_int ''255'' = Inr 255 \<and> py_int ''0'' = Inr 0 \<and>
   py_int ''007'' = Inr 7 \<and>
   sgr_body [''1'', ''38'', ''5'', ''196'', ''4''] 1 [''[bold]''] =
     Inr (4, [''[bold]'', ''[color(196)]'']) \<and>
   sgr_loop [''1'', ''38'', ''5'', ''196'', ''4''] 1 [''[bold]''] =
     Inr [''[bold]'', ''[color(196)]'', ''[underline]''] \<and>
   sgr_loop [''1'', ''48'', ''5'', ''196'', ''4''] 1 [''[bold]''] =
     Inr [''[bold]'', ''[on color(196)]'', ''[underline]''] \<and>
   sgr_loop [''1'', ''38'', ''2'', ''255'', ''0'', ''007'', ''4''] 1 [''[bold]''] =
     Inr [''[bold]'', ''[rgb(255,0,7)]'', ''[underline]''] \<and>
   sgr_loop [''1'', ''48'', ''2'', ''255'', ''0'', ''007'', ''4''] 1 [''[bold]''] =
     Inr [''[bold]'', ''[on rgb(255,0,7)]'', ''[underline]''] \<and>
   split_str (CHR '';'') ''1;38;5;196;4'' = [''1'', ''38'', ''5'', ''196'', ''4''] \<and>
   sgr_steps 1 [''1'', ''38'', ''5'', ''196'', ''4''] 0 [] = Inr (1, [''[bold]'']) \<and>
   parse_sgr ''1;38;5;196;4'' = Inr ''[bold][color(196)][underline]'' \<and>
   parse_sgr ''1;48;5;196;4'' = Inr ''[bold][on color(196)][underline]'' \<and>
   parse_sgr ''1;38;2;255;0;007;4'' = Inr ''[bold][rgb(255,0,7)][underline]'' \<and>
   parse_sgr ''1;48;2;255;0;007;4'' = Inr ''[bold][on rgb(255,0,7)][underline]'' \<and>
   split_str (CHR '';'') ''38;5;196'' = [''38'', ''5'', ''196''] \<and>
   sgr_steps 0 [''38'', ''5'', ''196''] 0 [] = Inr (0, []) \<and>
   parse_sgr ''38;5;196'' = Inr ''[color(196)]''"
proof -
  have n: "py_int ''196'' = Inr 196" by code_simp
  have r: "py_int ''255'' = Inr 255" by code_simp
  have g: "py_int ''0'' = Inr 0" by code_simp
  have b: "py_int ''007'' = Inr 7" by code_simp
  have s: "py_str 196 = ''196''" "py_str 255 = ''255''" "py_str 0 = ''0''" "py_str 7 = ''7''"
    by code_simp+
  have rest: "sgr_loop [''4''] 0 [] = Inr [''[underline]'']" by code_simp
  have none: "sgr_loop [] 0 [] = Inr []" by code_simp
  have p1: "split_str (CHR '';'') ''1;38;5;196;4'' = [''1''] @ ''38'' # ''5'' # ''196'' # [''4'']"
    by code_simp
  have p2: "split_str (CHR '';'') ''1;48;5;196;4'' = [''1''] @ ''48'' # ''5'' # ''196'' # [''4'']"
    by code_simp
  have p3: "split_str (CHR '';'') ''1;38;2;255;0;007;4'' =
              [''1''] @ ''38'' # ''2'' # ''255'' # ''0'' # ''007'' # [''4'']"
    by code_simp
  have p4: "split_str (CHR '';'') ''1;48;2;255;0;007;4'' =
              [''1''] @ ''48'' # ''2'' # ''255'' # ''0'' # ''007'' # [''4'']"
    by code_simp
  have p0: "split_str (CHR '';'') ''38;5;196'' = [] @ ''38'' # ''5'' # ''196'' # []"
    by code_simp
  have k1: "sgr_steps 1 ([''1''] @ ''38'' # ''5'' # ''196'' # [''4'']) 0 [] =
              Inr (length [''1''], [''[bold]''])"
    by code_simp
  have k2: "sgr_steps 1 ([''1''] @ ''48'' # ''5'' # ''196'' # [''4'']) 0 [] =
              Inr (length [''1''], [''[bold]''])"
    by code_simp
  have k3: "sgr_steps 1 ([''1''] @ ''38'' # ''2'' # ''255'' # ''0'' # ''007'' # [''4'']) 0 [] =
              Inr (length [''1''], [''[bold]''])"
    by code_simp
  have k4: "sgr_steps 1 ([''1''] @ ''48'' # ''2'' # ''255'' # ''0'' # ''007'' # [''4'']) 0 [] =
              Inr (length [''1''], [''[bold]''])"
    by code_simp
  have k0: "sgr_steps 0 ([] @ ''38'' # ''5'' # ''196'' # []) 0 [] =
              Inr (length ([] :: string list), [])"
    by simp
  note at1 = sgr_compound_directive [OF n r g b, of "[''1'']" "[''4'']" "[''[bold]'']"]
  note at0 = sgr_compound_directive [OF n r g b, of "[]" "[]" "[]"]
  have inst: "whole = Inr (out ts0) \<and> translate params0 = Inr (joined ts0)"
    if "\<exists>ts. after = Inr ts \<and> whole = Inr (out ts) \<and>
              (\<forall>params k. split params = parts \<and> steps k = Inr pos \<longrightarrow>
                 translate params = Inr (joined ts))"
      and "after = Inr ts0" and "split params0 = parts" and "steps k0 = Inr pos"
    for after whole :: "py_error + string list" and out ts0 joined parts pos k0 params0
      and translate :: "string \<Rightarrow> py_error + string"
      and split :: "string \<Rightarrow> string list"
      and steps :: "nat \<Rightarrow> py_error + nat \<times> string list"
    using that by auto
  have body:
    "sgr_body [''1'', ''38'', ''5'', ''196'', ''4''] 1 [''[bold]''] =
       Inr (4, [''[bold]'', ''[color(196)]''])"
    using at1 [THEN conjunct1, THEN conjunct1] by (simp add: s)
  have q1:
    "sgr_loop [''1'', ''38'', ''5'', ''196'', ''4''] 1 [''[bold]''] =
       Inr [''[bold]'', ''[color(196)]'', ''[underline]''] \<and>
     parse_sgr ''1;38;5;196;4'' = Inr ''[bold][color(196)][underline]''"
    using inst [OF at1 [THEN conjunct1, THEN conjunct2] rest p1 k1] by (simp add: s)
  have q2:
    "sgr_loop [''1'', ''48'', ''5'', ''196'', ''4''] 1 [''[bold]''] =
       Inr [''[bold]'', ''[on color(196)]'', ''[underline]''] \<and>
     parse_sgr ''1;48;5;196;4'' = Inr ''[bold][on color(196)][underline]''"
    using inst [OF at1 [THEN conjunct2, THEN conjunct1, THEN conjunct2] rest p2 k2]
    by (simp add: s)
  have q3:
    "sgr_loop [''1'', ''38'', ''2'', ''255'', ''0'', ''007'', ''4''] 1 [''[bold]''] =
       Inr [''[bold]'', ''[rgb(255,0,7)]'', ''[underline]''] \<and>
     parse_sgr ''1;38;2;255;0;007;4'' = Inr ''[bold][rgb(255,0,7)][underline]''"
    using inst [OF at1 [THEN conjunct2, THEN conjunct2, THEN conjunct1, THEN conjunct2] rest p3 k3]
    by (simp add: s)
  have q4:
    "sgr_loop [''1'', ''48'', ''2'', ''255'', ''0'', ''007'', ''4''] 1 [''[bold]''] =
       Inr [''[bold]'', ''[on rgb(255,0,7)]'', ''[underline]''] \<and>
     parse_sgr ''1;48;2;255;0;007;4'' = Inr ''[bold][on rgb(255,0,7)][underline]''"
    using inst [OF at1 [THEN conjunct2, THEN conjunct2, THEN conjunct2, THEN conjunct2] rest p4 k4]
    by (simp add: s)
  have q0: "parse_sgr ''38;5;196'' = Inr ''[color(196)]''"
    using inst [OF at0 [THEN conjunct1, THEN conjunct2] none p0 k0] by (simp add: s)
  show ?thesis
    using n r g b body q1 q2 q3 q4 q0 p1 p0 k1 k0 by simp
qed




subsection \<open>Claims about the converter\<close>

text \<open>
  C8. The empty parameter string and the single value \<open>0\<close> translate to the full reset
  \<open>[/]\<close>, the single code \<open>31\<close> to \<open>[red]\<close>, and the line ESC \<open>[31m\<close> \<open>red\<close>
  ESC \<open>[0m\<close> converts to \<open>[red]red[/]\<close>.
\<close>

theorem sgr_reset_and_red:
  "parse_sgr [] = Inr ''[/]'' \<and>
   parse_sgr ''0'' = Inr ''[/]'' \<and>
   parse_sgr ''31'' = Inr ''[red]'' \<and>
   ansi_to_rich ([ESC] @ ''[31m'' @ ''red'' @ [ESC] @ ''[0m'') = Inr ''[red]red[/]''"
  by code_simp

text \<open>
  The spec's words for the escaper: each literal \<open>[\<close> becomes \<open>\[\<close>, each literal
  \<open>]\<close> becomes \<open>\]\<close>, and nothing else changes.
\<close>

definition escaped_char :: "char \<Rightarrow> string" where
  "escaped_char c =
     (if c = CHR ''['' then [BSL, CHR ''['']
      else if c = CHR '']'' then [BSL, CHR '']'']
      else [c])"

lemma escape_rich_markup_chars: "escape_rich_markup t = concat (map escaped_char t)"
proof -
  have "str_replace (CHR '']'') [BSL, CHR '']''] (str_replace (CHR ''['') [BSL, CHR ''[''] t) =
        concat (map escaped_char t)"
    by (induction t) (simp_all add: escaped_char_def BSL_def)
  then show ?thesis by (simp add: escape_rich_markup_def)
qed

lemma escape_rich_markup_id:
  "CHR ''['' \<notin> set t \<Longrightarrow> CHR '']'' \<notin> set t \<Longrightarrow> escape_rich_markup t = t"
  unfolding escape_rich_markup_chars
  by (induction t) (auto simp: escaped_char_def)

text \<open>
  C9. A text in which the scanner finds no escape sequence (one without ESC is such a text)
  converts to the text with each \<open>[\<close> and \<open>]\<close> escaped by a backslash and nothing
  else changed; without brackets it converts to itself; \<open>a[b]c\<close> converts to
  \<open>a\[b\]c\<close>.
\<close>

theorem ansi_to_rich_without_sequences:
  "(ESC \<notin> set t \<longrightarrow> finditer t = []) \<and>
   (finditer t = [] \<longrightarrow> ansi_to_rich t = Inr (concat (map escaped_char t))) \<and>
   (finditer t = [] \<and> CHR ''['' \<notin> set t \<and> CHR '']'' \<notin> set t \<longrightarrow> ansi_to_rich t = Inr t) \<and>
   escape_rich_markup t = concat (map escaped_char t) \<and>
   ansi_to_rich ''a[b]c'' = Inr (''a'' @ [BSL] @ ''[b'' @ [BSL] @ '']c'')"
proof -
  have "ansi_to_rich ''a[b]c'' = Inr (''a'' @ [BSL] @ ''[b'' @ [BSL] @ '']c'')"
    by code_simp
  then show ?thesis
    using escape_rich_markup_chars [of t]
    by (auto simp: finditer_literal ansi_to_rich_no_matches escape_rich_markup_id)
qed

text \<open>A line without ESC and without brackets, and one with brackets.\<close>

theorem ansi_to_rich_without_sequences_witness:
  "ESC \<notin> set ''make: done'' \<and> finditer ''make: done'' = [] \<and>
   CHR ''['' \<notin> set ''make: done'' \<and> CHR '']'' \<notin> set ''make: done'' \<and>
   ansi_to_rich ''make: done'' = Inr ''make: done'' \<and>
   ESC \<notin> set ''[1/2] ok'' \<and>
   ansi_to_rich ''[1/2] ok'' = Inr ([BSL] @ ''[1/2'' @ [BSL] @ ''] ok'')"
proof -
  note w1 = ansi_to_rich_without_sequences [of "''make: done''"]
  note w2 = ansi_to_rich_without_sequences [of "''[1/2] ok''"]
  have a1: "ESC \<notin> set ''make: done''" and a2: "ESC \<notin> set ''[1/2] ok''"
    by (simp_all add: ESC_def)
  have b1: "CHR ''['' \<notin> set ''make: done''" and b2: "CHR '']'' \<notin> set ''make: done''"
    by simp_all
  have f1: "finditer ''make: done'' = []" using w1 a1 by blast
  have f2: "finditer ''[1/2] ok'' = []" using w2 a2 by blast
  have r1: "ansi_to_rich ''make: done'' = Inr ''make: done''" using w1 f1 b1 b2 by blast
  have e: "concat (map escaped_char ''[1/2] ok'') = [BSL] @ ''[1/2'' @ [BSL] @ ''] ok''"
    by (simp add: escaped_char_def)
  have "ansi_to_rich ''[1/2] ok'' = Inr (concat (map escaped_char ''[1/2] ok''))"
    using w2 f2 by blast
  then have r2: "ansi_to_rich ''[1/2] ok'' = Inr ([BSL] @ ''[1/2'' @ [BSL] @ ''] ok'')"
    by (simp only: e)
  show ?thesis using a1 a2 b1 b2 f1 r1 r2 by blast
qed

text \<open>
  C7. Where the scanner recognises in a line a control sequence that is not a CSI sequence
  with the command \<open>m\<close> (a cursor or erase CSI, an OSC, a DCS/SOS/PM/APC or a
  single-character sequence), the converted line is the conversion of the text before the
  sequence followed by the conversion of the text after it: the sequence adds no character
  and the text around it keeps its order.
\<close>

theorem non_sgr_sequence_dropped:
  assumes "(length pre, length pre + length seq) \<in> set (finditer (pre @ seq @ post))"
    and "\<forall>params. csi_fullmatch seq \<noteq> Some (params, CHR ''m'')"
  shows "\<exists>a b. ansi_to_rich pre = Inr a \<and> ansi_to_rich post = Inr b \<and>
               ansi_to_rich (pre @ seq @ post) = Inr (a @ b)"
  using rich_at_match [OF assms(1)] markup_of_non_sgr [OF assms(2)]
  by (simp add: ansi_to_rich_rich)

text \<open>
  An erase-in-line sequence after coloured, bracketed text, a title-setting OSC sequence,
  a DCS sequence and a single-character sequence.
\<close>

theorem non_sgr_sequence_dropped_witness:
  "(8, 8 + 4) \<in> set (finditer (([ESC] @ ''[31ma[b'') @ ([ESC] @ ''[2K'') @ (''c'' @ [ESC] @ ''[0m''))) \<and>
   csi_fullmatch ([ESC] @ ''[2K'') = Some (''2'', CHR ''K'') \<and>
   ansi_to_rich ([ESC] @ ''[31ma[b'') = Inr (''[red]a'' @ [BSL] @ ''[b'') \<and>
   ansi_to_rich (''c'' @ [ESC] @ ''[0m'') = Inr ''c[/]'' \<and>
   ansi_to_rich (([ESC] @ ''[31ma[b'') @ ([ESC] @ ''[2K'') @ (''c'' @ [ESC] @ ''[0m'')) =
     Inr (''[red]a'' @ [BSL] @ ''[bc[/]'') \<and>
   ansi_to_rich (''x'' @ ([ESC] @ '']0;title'' @ [BEL]) @ ''y'') = Inr ''xy'' \<and>
   ansi_to_rich (''x'' @ ([ESC] @ ''Pq'' @ [ESC, BSL]) @ ''y'') = Inr ''xy'' \<and>
   ansi_to_rich (''x'' @ [ESC, CHR ''M''] @ ''y'') = Inr ''xy''"
proof -
  let ?pre = "[ESC] @ ''[31ma[b''" and ?seq = "[ESC] @ ''[2K''" and ?post = "''c'' @ [ESC] @ ''[0m''"
  have f: "finditer (?pre @ ?seq @ ?post) = [(0, 5), (8, 12), (13, 17)]" by code_simp
  have m: "(length ?pre, length ?pre + length ?seq) \<in> set (finditer (?pre @ ?seq @ ?post))"
    by (simp only: f) simp
  have c: "csi_fullmatch ?seq = Some (''2'', CHR ''K'')" by code_simp
  then have n: "\<forall>params. csi_fullmatch ?seq \<noteq> Some (params, CHR ''m'')" by simp
  have a: "ansi_to_rich ?pre = Inr (''[red]a'' @ [BSL] @ ''[b'')" by code_simp
  have b: "ansi_to_rich ?post = Inr ''c[/]''" by code_simp
  have r: "ansi_to_rich (?pre @ ?seq @ ?post) = Inr ((''[red]a'' @ [BSL] @ ''[b'') @ ''c[/]'')"
    using non_sgr_sequence_dropped [OF m n] a b by auto
  have o: "ansi_to_rich (''x'' @ ([ESC] @ '']0;title'' @ [BEL]) @ ''y'') = Inr ''xy''"
  proof -
    have "finditer (''x'' @ ([ESC] @ '']0;title'' @ [BEL]) @ ''y'') = [(1, 11)]" by code_simp
    then have "(length ''x'', length ''x'' + length ([ESC] @ '']0;title'' @ [BEL])) \<in>
        set (finditer (''x'' @ ([ESC] @ '']0;title'' @ [BEL]) @ ''y''))" by simp
    moreover have "csi_fullmatch ([ESC] @ '']0;title'' @ [BEL]) = None" by code_simp
    moreover have "ansi_to_rich ''x'' = Inr ''x''" "ansi_to_rich ''y'' = Inr ''y''" by code_simp+
    ultimately show ?thesis
      using non_sgr_sequence_dropped [of "''x''" "[ESC] @ '']0;title'' @ [BEL]" "''y''"] by auto
  qed
  have d: "ansi_to_rich (''x'' @ ([ESC] @ ''Pq'' @ [ESC, BSL]) @ ''y'') = Inr ''xy''"
  proof -
    have "finditer (''x'' @ ([ESC] @ ''Pq'' @ [ESC, BSL]) @ ''y'') = [(1, 6)]" by code_simp
    then have "(length ''x'', length ''x'' + length ([ESC] @ ''Pq'' @ [ESC, BSL])) \<in>
        set (finditer (''x'' @ ([ESC] @ ''Pq'' @ [ESC, BSL]) @ ''y''))" by simp
    moreover have "csi_fullmatch ([ESC] @ ''Pq'' @ [ESC, BSL]) = None" by code_simp
    moreover have "ansi_to_rich ''x'' = Inr ''x''" "ansi_to_rich ''y'' = Inr ''y''" by code_simp+
    ultimately show ?thesis
      using non_sgr_sequence_dropped [of "''x''" "[ESC] @ ''Pq'' @ [ESC, BSL]" "''y''"] by auto
  qed
  have e: "ansi_to_rich (''x'' @ [ESC, CHR ''M''] @ ''y'') = Inr ''xy''"
  proof -
    have "finditer (''x'' @ [ESC, CHR ''M''] @ ''y'') = [(1, 3)]" by code_simp
    then have "(length ''x'', length ''x'' + length [ESC, CHR ''M'']) \<in>
        set (finditer (''x'' @ [ESC, CHR ''M''] @ ''y''))" by simp
    moreover have "csi_fullmatch [ESC, CHR ''M''] = None" by code_simp
    moreover have "ansi_to_rich ''x'' = Inr ''x''" "ansi_to_rich ''y'' = Inr ''y''" by code_simp+
    ultimately show ?thesis
      using non_sgr_sequence_dropped [of "''x''" "[ESC, CHR ''M'']" "''y''"] by auto
  qed
  have m': "(8, 8 + 4) \<in> set (finditer (?pre @ ?seq @ ?post))"
    by (simp only: f) simp
  show ?thesis
    using m' c a b r o d e by simp
qed

text \<open>
  C10. An \<open>m\<close>-terminated CSI sequence whose parameter field has colons and no semicolon
  is recognised and consumed whole by the scanner, and its parameter field reaches the
  translator as one string: \<open>split(";")\<close> leaves it in one piece, which is no code of the
  table and no \<open>38\<close> or \<open>48\<close>, so the translator returns the empty string and the
  converted line holds nothing for the sequence.
\<close>

theorem colon_separated_sgr_dropped:
  assumes "\<forall>c \<in> set params. is_csi_param c"
    and "CHR '':'' \<in> set params" and "CHR '';'' \<notin> set params"
  shows "ansi_all_match (ESC # CHR ''['' # params @ CHR ''m'' # post) = Some (length params + 3) \<and>
         csi_fullmatch (ESC # CHR ''['' # params @ [CHR ''m'']) = Some (params, CHR ''m'') \<and>
         split_str (CHR '';'') params = [params] \<and>
         parse_sgr params = Inr [] \<and>
         ((length pre, length pre + (length params + 3))
             \<in> set (finditer (pre @ (ESC # CHR ''['' # params @ [CHR ''m'']) @ post)) \<longrightarrow>
          (\<exists>a b. ansi_to_rich pre = Inr a \<and> ansi_to_rich post = Inr b \<and>
             ansi_to_rich (pre @ (ESC # CHR ''['' # params @ [CHR ''m'']) @ post) = Inr (a @ b)))"
proof -
  let ?seq = "ESC # CHR ''['' # params @ [CHR ''m'']"
  have p: "parse_sgr params = Inr []"
    using assms(2,3) by (rule parse_sgr_colon)
  have c: "csi_fullmatch ?seq = Some (params, CHR ''m'')"
    using assms(1) by (rule csi_fullmatch_m)
  have mk: "markup_of ?seq = []"
    by (simp add: markup_of_def seq_markup_def c p)
  have "rich (pre @ ?seq @ post) = rich pre @ rich post"
    if "(length pre, length pre + (length params + 3)) \<in> set (finditer (pre @ ?seq @ post))"
  proof -
    have "(length pre, length pre + length ?seq) \<in> set (finditer (pre @ ?seq @ post))"
      using that by (simp add: numeral_3_eq_3)
    then show ?thesis
      using rich_at_match [of pre ?seq post] mk by simp
  qed
  then show ?thesis
    using p c ansi_all_match_csi_m [OF assms(1), of post] split_str_no_sep [OF assms(3)]
    by (simp add: ansi_to_rich_rich)
qed

text \<open>ESC \<open>[38:5:196m\<close> between \<open>a\<close> and \<open>b\<close>; with semicolons it is a colour.\<close>

theorem colon_separated_sgr_dropped_witness:
  "list_all is_csi_param ''38:5:196'' \<and> CHR '':'' \<in> set ''38:5:196'' \<and>
   CHR '';'' \<notin> set ''38:5:196'' \<and>
   ansi_all_match (ESC # CHR ''['' # ''38:5:196'' @ CHR ''m'' # ''b'') = Some 11 \<and>
   parse_sgr ''38:5:196'' = Inr [] \<and>
   (1, 12) \<in> set (finditer (''a'' @ (ESC # CHR ''['' # ''38:5:196'' @ [CHR ''m'']) @ ''b'')) \<and>
   ansi_to_rich (''a'' @ (ESC # CHR ''['' # ''38:5:196'' @ [CHR ''m'']) @ ''b'') = Inr ''ab'' \<and>
   ansi_to_rich (''a'' @ (ESC # CHR ''['' # ''38;5;196'' @ [CHR ''m'']) @ ''b'') =
     Inr ''a[color(196)]b''"
proof -
  have h1: "\<forall>c \<in> set ''38:5:196''. is_csi_param c"
    by (simp add: is_csi_param_def is_digit_def)
  have h2: "CHR '':'' \<in> set ''38:5:196''" and h3: "CHR '';'' \<notin> set ''38:5:196''"
    by simp_all
  note t = colon_separated_sgr_dropped [OF h1 h2 h3, of "''b''" "''a''"]
  have f: "finditer (''a'' @ (ESC # CHR ''['' # ''38:5:196'' @ [CHR ''m'']) @ ''b'') = [(1, 12)]"
    by code_simp
  have m: "(length ''a'', length ''a'' + (length ''38:5:196'' + 3)) \<in>
      set (finditer (''a'' @ (ESC # CHR ''['' # ''38:5:196'' @ [CHR ''m'']) @ ''b''))"
    by (simp only: f) simp
  have a: "ansi_to_rich ''a'' = Inr ''a''" and b: "ansi_to_rich ''b'' = Inr ''b''"
    by code_simp+
  have r: "ansi_to_rich (''a'' @ (ESC # CHR ''['' # ''38:5:196'' @ [CHR ''m'']) @ ''b'') = Inr ''ab''"
    using t m a b by auto
  have s: "ansi_to_rich (''a'' @ (ESC # CHR ''['' # ''38;5;196'' @ [CHR ''m'']) @ ''b'') =
     Inr ''a[color(196)]b''"
    by code_simp
  have m': "(1, 12) \<in> set (finditer (''a'' @ (ESC # CHR ''['' # ''38:5:196'' @ [CHR ''m'']) @ ''b''))"
    by (simp only: f) simp
  have am: "ansi_all_match (ESC # CHR ''['' # ''38:5:196'' @ CHR ''m'' # ''b'') = Some 11"
    using t by simp
  have p: "parse_sgr ''38:5:196'' = Inr []" using t by blast
  have h1': "list_all is_csi_param ''38:5:196''"
    using h1 by (simp only: list_all_iff)
  show ?thesis
    using h1' h2 h3 am p m' r s by blast
qed

subsection \<open>Claims about the line assembler\<close>

text \<open>
  C3. Fed the one chunk \<open>abc\r\ndef\n\<close>, a fresh processor completes the raw lines
  \<open>abc\<close> and \<open>def\<close>, in this order, returns \<open>abc\ndef\n\<close> and is left with an
  empty buffer.
\<close>

theorem process_crlf_then_lf:
  "process_loop (''abc'' @ [CR, LF] @ ''def'' @ [LF]) 0 [] (current_line OutputProcessor_init) =
     ([''abc'', ''def''], []) \<and>
   process OutputProcessor_init (''abc'' @ [CR, LF] @ ''def'' @ [LF]) =
     (Inr (''abc'' @ [LF] @ ''def'' @ [LF]), \<lparr>current_line = []\<rparr>)"
  by code_simp

text \<open>
  C4. A carriage return that the chunk does not follow at once with a line feed empties
  the buffer and completes no line, whatever the buffer held; so \<open>abc\rdef\n\<close>, fed to a
  fresh processor, completes the one line \<open>def\<close>.
\<close>

theorem process_bare_cr:
  "(i < length text \<and> text ! i = CR \<and> \<not> (i + 1 < length text \<and> text ! (i + 1) = LF) \<longrightarrow>
      process_loop text i result_lines line = process_loop text (i + 1) result_lines []) \<and>
   process_loop (''abc'' @ [CR] @ ''def'' @ [LF]) 0 [] (current_line OutputProcessor_init) =
     ([''def''], []) \<and>
   process OutputProcessor_init (''abc'' @ [CR] @ ''def'' @ [LF]) =
     (Inr (''def'' @ [LF]), \<lparr>current_line = []\<rparr>)"
proof -
  have "process_loop text i result_lines line = process_loop text (i + 1) result_lines []"
    if "i < length text" "text ! i = CR" "\<not> (i + 1 < length text \<and> text ! (i + 1) = LF)"
    using that by (subst process_loop.simps) (auto simp: Let_def)
  moreover have "process_loop (''abc'' @ [CR] @ ''def'' @ [LF]) 0 []
      (current_line OutputProcessor_init) = ([''def''], [])"
    by code_simp
  moreover have "process OutputProcessor_init (''abc'' @ [CR] @ ''def'' @ [LF]) =
     (Inr (''def'' @ [LF]), \<lparr>current_line = []\<rparr>)"
    by code_simp
  ultimately show ?thesis by blast
qed

text \<open>A carriage return that ends its chunk, with \<open>xy\<close> buffered after a line \<open>w\<close>.\<close>

theorem process_bare_cr_witness:
  "2 < length (''xy'' @ [CR]) \<and> (''xy'' @ [CR]) ! 2 = CR \<and>
   \<not> (2 + 1 < length (''xy'' @ [CR]) \<and> (''xy'' @ [CR]) ! (2 + 1) = LF) \<and>
   process_loop (''xy'' @ [CR]) 2 [''w''] ''xy'' = process_loop (''xy'' @ [CR]) (2 + 1) [''w''] [] \<and>
   process_loop (''xy'' @ [CR]) 2 [''w''] ''xy'' = ([''w''], [])"
proof -
  have e: "process_loop (''xy'' @ [CR]) (2 + 1) [''w''] [] = ([''w''], [])"
    by code_simp
  have h: "2 < length (''xy'' @ [CR]) \<and> (''xy'' @ [CR]) ! 2 = CR \<and>
           \<not> (2 + 1 < length (''xy'' @ [CR]) \<and> (''xy'' @ [CR]) ! (2 + 1) = LF)"
    by simp
  have "process_loop (''xy'' @ [CR]) 2 [''w''] ''xy'' =
        process_loop (''xy'' @ [CR]) (2 + 1) [''w''] []"
    using process_bare_cr [of 2 "''xy'' @ [CR]" "[''w'']" "''xy''"] h by blast
  then show ?thesis using e h by simp
qed

text \<open>
  C6. \<open>process("partial")\<close> on a fresh processor returns the empty string and keeps
  \<open>partial\<close> buffered; the first \<open>flush()\<close> returns \<open>partial\n\<close> and empties the
  buffer; a second \<open>flush()\<close> returns the empty string; and after \<open>reset()\<close> on the
  buffered, unflushed content, \<open>flush()\<close> returns the empty string. For every processor,
  \<open>flush()\<close> after \<open>reset()\<close> returns the empty string.
\<close>

theorem flush_and_reset:
  "process OutputProcessor_init ''partial'' = (Inr [], \<lparr>current_line = ''partial''\<rparr>) \<and>
   flush \<lparr>current_line = ''partial''\<rparr> = (Inr (''partial'' @ [LF]), \<lparr>current_line = []\<rparr>) \<and>
   flush \<lparr>current_line = []\<rparr> = (Inr [], \<lparr>current_line = []\<rparr>) \<and>
   reset \<lparr>current_line = ''partial''\<rparr> = \<lparr>current_line = []\<rparr> \<and>
   flush (reset \<lparr>current_line = ''partial''\<rparr>) = (Inr [], \<lparr>current_line = []\<rparr>) \<and>
   (\<forall>self. fst (flush (reset self)) = Inr [])"
proof -
  have "process OutputProcessor_init ''partial'' = (Inr [], \<lparr>current_line = ''partial''\<rparr>)"
    by code_simp
  moreover have "flush \<lparr>current_line = ''partial''\<rparr> =
      (Inr (''partial'' @ [LF]), \<lparr>current_line = []\<rparr>)"
    by code_simp
  moreover have "fst (flush (reset self)) = Inr []" for self :: OutputProcessor
    by (simp add: flush_def reset_def)
  ultimately show ?thesis by (simp add: flush_def reset_def)
qed

text \<open>
  C5. Feeding \<open>abc\r\n\<close> in one chunk completes the line \<open>abc\<close>; feeding it as
  \<open>abc\r\<close> and then \<open>\n\<close> completes an empty line instead: the look-ahead for the line
  feed stops at the end of the chunk, the carriage return empties the buffer, and the line
  feed of the next chunk then ends an empty line. At every other place a text can be split
  without changing the lines completed or the buffer left (\<open>process_loop_split\<close>).
\<close>

theorem process_crlf_split_across_chunks:
  "process_loop (''abc'' @ [CR, LF]) 0 [] (current_line OutputProcessor_init) = ([''abc''], []) \<and>
   process_loop (''abc'' @ [CR]) 0 [] (current_line OutputProcessor_init) = ([], []) \<and>
   process_loop [LF] 0 [] [] = ([[]], []) \<and>
   process OutputProcessor_init (''abc'' @ [CR, LF]) = (Inr (''abc'' @ [LF]), \<lparr>current_line = []\<rparr>) \<and>
   process OutputProcessor_init (''abc'' @ [CR]) = (Inr [], \<lparr>current_line = []\<rparr>) \<and>
   process (snd (process OutputProcessor_init (''abc'' @ [CR]))) [LF] =
     (Inr [LF], \<lparr>current_line = []\<rparr>)"
  by code_simp

end
